theory Spec2Isabelle
  imports Main
begin

section \<open>Decimal rendering of integers (\<open>std::to_string\<close>)\<close>

text \<open>
  The generated names of \<open>IRGenerationContext.cpp\<close> are built with \<open>std::to_string\<close>
  on \<open>size_t\<close> (arities, counters) and on the signed 64-bit AST node id. Both render a
  number in decimal, without leading zeros, and a negative one with a leading minus sign.
  The sizes are modelled as \<open>nat\<close> and the id as \<open>int\<close>: no claim verified here depends
  on a counter or an id leaving the machine range.
\<close>

definition digit_char :: "nat \<Rightarrow> char" where
  "digit_char d =
     (if d = 0 then CHR ''0'' else if d = 1 then CHR ''1'' else if d = 2 then CHR ''2''
      else if d = 3 then CHR ''3'' else if d = 4 then CHR ''4'' else if d = 5 then CHR ''5''
      else if d = 6 then CHR ''6'' else if d = 7 then CHR ''7'' else if d = 8 then CHR ''8''
      else CHR ''9'')"

fun to_string_nat :: "nat \<Rightarrow> string" where
  "to_string_nat n =
     (if n < 10 then [digit_char n]
      else to_string_nat (n div 10) @ [digit_char (n mod 10)])"

declare to_string_nat.simps [simp del]

definition to_string :: "int \<Rightarrow> string" where
  "to_string i = (if i < 0 then CHR ''-'' # to_string_nat (nat (- i)) else to_string_nat (nat i))"

section \<open>AST objects and pointers to them\<close>

text \<open>
  The context never owns AST nodes: it stores \<open>FunctionDefinition const*\<close>,
  \<open>VariableDeclaration const*\<close> and \<open>Expression const*\<close>. A pointer is modelled as the
  address it holds (\<open>0\<close> is \<open>nullptr\<close>), and the AST as a store from addresses to the
  objects living there. The containers keyed by pointers (\<open>std::set<T const*>\<close>,
  \<open>std::map<T const*, \<dots>>\<close>) use the default comparison of pointers, that is, of
  addresses.
\<close>

type_synonym fptr = nat
type_synonym vptr = nat
type_synonym eptr = nat

record Arity =
  arity_in :: nat
  arity_out :: nat

text \<open>\<open>std::less<Arity>\<close> as specialised in \<open>IRGenerationContext.h\<close>.\<close>

definition arity_less :: "Arity \<Rightarrow> Arity \<Rightarrow> bool" where
  "arity_less l r \<longleftrightarrow>
     arity_in l < arity_in r \<or> (arity_in l = arity_in r \<and> arity_out l < arity_out r)"

text \<open>
  What the context reads of a \<open>FunctionDefinition\<close>: \<open>id()\<close>, \<open>name()\<close>,
  \<open>isConstructor()\<close>, and the arity of its callable function type.
\<close>

text \<open>
  Modelled from the spec: \<open>TypeProvider::function(f)->asCallableFunction(false)\<close> and
  \<open>TupleType(\<dots>).sizeOnStack()\<close> live in the AST and type libraries, which are
  absent. The field \<open>fd_callable\<close> holds the arity that \<open>functionArity\<close> computes from
  them (the number of stack slots consumed and produced by the function's calling
  convention), or \<open>None\<close> when \<open>asCallableFunction\<close> yields no function type.
\<close>

record FunctionDefinition =
  fd_id :: int
  fd_name :: string
  fd_isConstructor :: bool
  fd_callable :: "Arity option"

type_synonym ast_store = "fptr \<Rightarrow> FunctionDefinition"

text \<open>
  Of a \<open>VariableDeclaration\<close>: \<open>immutable()\<close>, and of its annotated type
  \<open>isValueType()\<close> and \<open>memoryHeadSize()\<close>.
\<close>

record VariableDeclaration =
  vd_immutable :: bool
  vd_isValueType :: bool
  vd_memoryHeadSize :: nat

type_synonym var_store = "vptr \<Rightarrow> VariableDeclaration"

text \<open>
  \<open>solAssert\<close> throws an internal compiler error, \<open>solUnimplementedAssert\<close> an
  unimplemented-feature error, \<open>std::vector::at\<close> an out-of-range error. Each aborts the
  operation; the model returns them as values.
\<close>

datatype error = InternalCompilerError | UnimplementedFeatureError | OutOfRange

section \<open>Ordered containers\<close>

text \<open>
  A \<open>std::set<T const*>\<close> is the list of its elements in ascending order of address,
  without repetition, which is also the order in which the source iterates over it.
  \<open>set_insert\<close> is \<open>std::set::insert\<close>: an element already present is not inserted
  again, a new one goes to its place in the order.
\<close>

fun insert_sorted :: "nat \<Rightarrow> nat list \<Rightarrow> nat list" where
  "insert_sorted p [] = [p]"
| "insert_sorted p (q # qs) = (if p < q then p # q # qs else q # insert_sorted p qs)"

definition set_insert :: "nat \<Rightarrow> nat list \<Rightarrow> nat list" where
  "set_insert p xs = (if p \<in> set xs then xs else insert_sorted p xs)"

text \<open>
  A \<open>std::map\<close> is the list of its entries in ascending key order. \<open>map_find\<close> is
  \<open>find\<close>, \<open>map_emplace\<close> is \<open>try_emplace\<close> (nothing happens when the key is present),
  \<open>map_assign\<close> is \<open>m[k] = v\<close> (the value of a present key is overwritten in place, a
  new key gets its entry at its place in the order), \<open>map_erase\<close> is \<open>erase\<close>.
\<close>

definition map_keys :: "('k \<times> 'v) list \<Rightarrow> 'k set" where
  "map_keys m = fst ` set m"

fun map_find :: "'k \<Rightarrow> ('k \<times> 'v) list \<Rightarrow> 'v option" where
  "map_find k [] = None"
| "map_find k ((k', v') # m) = (if k = k' then Some v' else map_find k m)"

fun map_insert_sorted :: "('k \<Rightarrow> 'k \<Rightarrow> bool) \<Rightarrow> 'k \<Rightarrow> 'v \<Rightarrow> ('k \<times> 'v) list \<Rightarrow> ('k \<times> 'v) list" where
  "map_insert_sorted lt k v [] = [(k, v)]"
| "map_insert_sorted lt k v ((k', v') # m) =
     (if lt k k' then (k, v) # (k', v') # m else (k', v') # map_insert_sorted lt k v m)"

fun map_overwrite :: "'k \<Rightarrow> 'v \<Rightarrow> ('k \<times> 'v) list \<Rightarrow> ('k \<times> 'v) list" where
  "map_overwrite k v [] = []"
| "map_overwrite k v ((k', v') # m) =
     (if k = k' then (k', v) # m else (k', v') # map_overwrite k v m)"

definition map_emplace :: "('k \<Rightarrow> 'k \<Rightarrow> bool) \<Rightarrow> 'k \<Rightarrow> 'v \<Rightarrow> ('k \<times> 'v) list \<Rightarrow> ('k \<times> 'v) list" where
  "map_emplace lt k v m =
     (case map_find k m of None \<Rightarrow> map_insert_sorted lt k v m | Some w \<Rightarrow> m)"

definition map_assign :: "('k \<Rightarrow> 'k \<Rightarrow> bool) \<Rightarrow> 'k \<Rightarrow> 'v \<Rightarrow> ('k \<times> 'v) list \<Rightarrow> ('k \<times> 'v) list" where
  "map_assign lt k v m =
     (case map_find k m of None \<Rightarrow> map_insert_sorted lt k v m | Some w \<Rightarrow> map_overwrite k v m)"

fun map_erase :: "'k \<Rightarrow> ('k \<times> 'v) list \<Rightarrow> ('k \<times> 'v) list" where
  "map_erase k [] = []"
| "map_erase k ((k', v') # m) = (if k = k' then map_erase k m else (k', v') # map_erase k m)"

type_synonym InternalDispatchMap = "(Arity \<times> fptr list) list"

section \<open>The function collector\<close>

text \<open>
  Modelled from the spec: \<open>MultiUseYulFunctionCollector\<close> (member \<open>m_functions\<close>) is
  absent from the sources. It records the generated Yul functions by name:
  \<open>contains\<close> tells whether a name has been requested, and \<open>createFunction\<close> memoises
  by name, running the creator only for a name not yet present and always returning the
  name, so that repeated requests for one name emit one definition.
\<close>

type_synonym MultiUseYulFunctionCollector = "string \<rightharpoonup> string"

definition contains :: "MultiUseYulFunctionCollector \<Rightarrow> string \<Rightarrow> bool" where
  "contains fs name \<longleftrightarrow> fs name \<noteq> None"

definition createFunction ::
  "MultiUseYulFunctionCollector \<Rightarrow> string \<Rightarrow> string \<Rightarrow> string \<times> MultiUseYulFunctionCollector" where
  "createFunction fs name code =
     (if contains fs name then (name, fs) else (name, fs(name \<mapsto> code)))"

section \<open>The code generation context\<close>

text \<open>
  The members of \<open>IRGenerationContext\<close> that the operations below read or write.
  \<open>m_reservedMemory\<close> is a \<open>std::optional<size_t>\<close>, initially \<open>{0}\<close>.
\<close>

record IRGenerationContext =
  m_immutableVariables :: "vptr \<rightharpoonup> nat"
  m_reservedMemory :: "nat option"
  m_functions :: MultiUseYulFunctionCollector
  m_functionGenerationQueue :: "fptr list"
  m_internalDispatch :: InternalDispatchMap
  m_internalDispatchCandidates :: InternalDispatchMap
  m_dispatchableInternalFunctionReferences :: "(eptr \<times> fptr) list"

definition initialContext :: IRGenerationContext where
  "initialContext =
     \<lparr> m_immutableVariables = Map.empty,
       m_reservedMemory = Some 0,
       m_functions = Map.empty,
       m_functionGenerationQueue = [],
       m_internalDispatch = [],
       m_internalDispatchCandidates = [],
       m_dispatchableInternalFunctionReferences = [] \<rparr>"

subsection \<open>Names\<close>

definition functionName :: "FunctionDefinition \<Rightarrow> string" where
  "functionName f = ''fun_'' @ fd_name f @ ''_'' @ to_string (fd_id f)"

definition internalDispatchFunctionName :: "Arity \<Rightarrow> string" where
  "internalDispatchFunctionName a =
     ''dispatch_internal'' @ ''_in_'' @ to_string (int (arity_in a)) @
     ''_out_'' @ to_string (int (arity_out a))"

definition functionArity :: "FunctionDefinition \<Rightarrow> error + Arity" where
  "functionArity f =
     (case fd_callable f of None \<Rightarrow> Inl InternalCompilerError | Some a \<Rightarrow> Inr a)"

subsection \<open>The function generation queue\<close>

definition enqueueFunctionForCodeGeneration ::
  "ast_store \<Rightarrow> IRGenerationContext \<Rightarrow> fptr \<Rightarrow> string \<times> IRGenerationContext" where
  "enqueueFunctionForCodeGeneration ast c p =
     (let name = functionName (ast p) in
      (name,
       if \<not> contains (m_functions c) name
       then c\<lparr>m_functionGenerationQueue := set_insert p (m_functionGenerationQueue c)\<rparr>
       else c))"

definition dequeueFunctionForCodeGeneration ::
  "IRGenerationContext \<Rightarrow> error + (fptr \<times> IRGenerationContext)" where
  "dequeueFunctionForCodeGeneration c =
     (case m_functionGenerationQueue c of
        [] \<Rightarrow> Inl InternalCompilerError
      | p # ps \<Rightarrow> Inr (p, c\<lparr>m_functionGenerationQueue := ps\<rparr>))"

subsection \<open>Immutable variables\<close>

text \<open>
  \<open>CompilerUtils::generalPurposeMemoryStart\<close> is a constant declared outside the
  sources at hand: it is the parameter \<open>base\<close>. The source writes the offset before it
  checks the head size; a failed check throws, so the write is not observable.
\<close>

definition registerImmutableVariable ::
  "nat \<Rightarrow> var_store \<Rightarrow> IRGenerationContext \<Rightarrow> vptr \<Rightarrow> error + IRGenerationContext" where
  "registerImmutableVariable base vars c v =
     (if \<not> vd_immutable (vars v) then Inl InternalCompilerError
      else if \<not> vd_isValueType (vars v) then Inl UnimplementedFeatureError
      else case m_reservedMemory c of
          None \<Rightarrow> Inl InternalCompilerError
        | Some r \<Rightarrow>
            if vd_memoryHeadSize (vars v) \<noteq> 32 then Inl InternalCompilerError
            else Inr (c\<lparr>m_immutableVariables := (m_immutableVariables c)(v \<mapsto> base + r),
                        m_reservedMemory := Some (r + vd_memoryHeadSize (vars v))\<rparr>))"

definition immutableMemoryOffset :: "IRGenerationContext \<Rightarrow> vptr \<Rightarrow> error + nat" where
  "immutableMemoryOffset c v =
     (case m_immutableVariables c v of
        None \<Rightarrow> Inl InternalCompilerError
      | Some off \<Rightarrow> Inr off)"

definition reservedMemory :: "IRGenerationContext \<Rightarrow> error + (nat \<times> IRGenerationContext)" where
  "reservedMemory c =
     (case m_reservedMemory c of
        None \<Rightarrow> Inl InternalCompilerError
      | Some r \<Rightarrow> Inr (r, c\<lparr>m_reservedMemory := None\<rparr>))"

subsection \<open>Internal dispatch bookkeeping\<close>

definition internalDispatchClean :: "IRGenerationContext \<Rightarrow> bool" where
  "internalDispatchClean c \<longleftrightarrow>
     m_internalDispatch c = [] \<and>
     m_internalDispatchCandidates c = [] \<and>
     m_dispatchableInternalFunctionReferences c = []"

definition setInternalDispatchCandidates ::
  "IRGenerationContext \<Rightarrow> InternalDispatchMap \<Rightarrow> error + IRGenerationContext" where
  "setInternalDispatchCandidates c candidates =
     (if \<not> internalDispatchClean c then Inl InternalCompilerError
      else Inr (c\<lparr>m_internalDispatchCandidates := candidates\<rparr>))"

definition consumeInternalDispatchMap ::
  "IRGenerationContext \<Rightarrow> error + ((InternalDispatchMap \<times> InternalDispatchMap) \<times> IRGenerationContext)" where
  "consumeInternalDispatchMap c =
     (if m_dispatchableInternalFunctionReferences c \<noteq> [] then Inl InternalCompilerError
      else Inr ((m_internalDispatch c, m_internalDispatchCandidates c),
                c\<lparr>m_internalDispatch := [], m_internalDispatchCandidates := []\<rparr>))"

definition registerInternalDispatch ::
  "IRGenerationContext \<Rightarrow> Arity \<Rightarrow> string \<times> IRGenerationContext" where
  "registerInternalDispatch c a =
     (internalDispatchFunctionName a,
      c\<lparr>m_internalDispatch := map_emplace arity_less a [] (m_internalDispatch c)\<rparr>)"

definition collectDispatchableReference ::
  "ast_store \<Rightarrow> IRGenerationContext \<Rightarrow> eptr \<Rightarrow> fptr \<Rightarrow> error + (string \<times> IRGenerationContext)" where
  "collectDispatchableReference ast c e p =
     (if map_find e (m_dispatchableInternalFunctionReferences c) \<noteq> None
      then Inl InternalCompilerError
      else case functionArity (ast p) of
          Inl err \<Rightarrow> Inl err
        | Inr a \<Rightarrow>
            Inr (internalDispatchFunctionName a,
                 c\<lparr>m_dispatchableInternalFunctionReferences :=
                      map_assign (<) e p (m_dispatchableInternalFunctionReferences c)\<rparr>))"

definition forgetDispatchableReference ::
  "IRGenerationContext \<Rightarrow> eptr \<Rightarrow> error + IRGenerationContext" where
  "forgetDispatchableReference c e =
     (if map_find e (m_dispatchableInternalFunctionReferences c) = None
      then Inl InternalCompilerError
      else Inr (c\<lparr>m_dispatchableInternalFunctionReferences :=
                    map_erase e (m_dispatchableInternalFunctionReferences c)\<rparr>))"

subsection \<open>Promotion of the collected references\<close>

text \<open>The inner loop of the first phase: every candidate of the arity is enqueued.\<close>

fun enqueueAll :: "ast_store \<Rightarrow> fptr list \<Rightarrow> IRGenerationContext \<Rightarrow> IRGenerationContext" where
  "enqueueAll ast [] c = c"
| "enqueueAll ast (p # ps) c = enqueueAll ast ps (snd (enqueueFunctionForCodeGeneration ast c p))"

text \<open>
  The first loop of \<open>moveCollectedReferencesToDispatch\<close> walks the entries of
  \<open>m_internalDispatch\<close> in key order and rewrites the value of an entry in place; it
  neither adds nor removes a key of that map. The function takes the entries still to be
  visited and returns the rewritten ones together with the context, in which the
  candidates map and the queue have changed.
\<close>

fun promoteCandidates ::
  "ast_store \<Rightarrow> InternalDispatchMap \<Rightarrow> IRGenerationContext \<Rightarrow>
     error + (InternalDispatchMap \<times> IRGenerationContext)" where
  "promoteCandidates ast [] c = Inr ([], c)"
| "promoteCandidates ast ((a, fs) # rest) c =
     (case map_find a (m_internalDispatchCandidates c) of
        None \<Rightarrow>
          (case promoteCandidates ast rest c of
             Inl err \<Rightarrow> Inl err
           | Inr (d, c') \<Rightarrow> Inr ((a, fs) # d, c'))
      | Some cs \<Rightarrow>
          if fs \<noteq> [] then Inl InternalCompilerError
          else
            (let c1 = enqueueAll ast cs c;
                 c2 = c1\<lparr>m_internalDispatchCandidates :=
                           map_erase a (m_internalDispatchCandidates c1)\<rparr>
             in case promoteCandidates ast rest c2 of
                  Inl err \<Rightarrow> Inl err
                | Inr (d, c') \<Rightarrow> Inr ((a, cs) # d, c')))"

text \<open>
  The second loop walks the values of \<open>m_dispatchableInternalFunctionReferences\<close> in key
  order; the table itself is cleared only after the loop.
\<close>

fun resolveReferences ::
  "ast_store \<Rightarrow> (eptr \<times> fptr) list \<Rightarrow> IRGenerationContext \<Rightarrow> error + IRGenerationContext" where
  "resolveReferences ast [] c = Inr c"
| "resolveReferences ast ((e, p) # rest) c =
     (if p = 0 then Inl InternalCompilerError
      else case functionArity (ast p) of
          Inl err \<Rightarrow> Inl err
        | Inr arity \<Rightarrow>
            (case (map_find arity (m_internalDispatch c),
                   map_find arity (m_internalDispatchCandidates c)) of
               (Some fs, Some cs) \<Rightarrow> Inl InternalCompilerError
             | (Some fs, None) \<Rightarrow>
                 resolveReferences ast rest
                   (snd (enqueueFunctionForCodeGeneration ast
                      (c\<lparr>m_internalDispatch :=
                           map_assign arity_less arity (set_insert p fs) (m_internalDispatch c)\<rparr>) p))
             | (None, Some cs) \<Rightarrow>
                 resolveReferences ast rest
                   (c\<lparr>m_internalDispatchCandidates :=
                        map_assign arity_less arity (set_insert p cs)
                          (m_internalDispatchCandidates c)\<rparr>)
             | (None, None) \<Rightarrow>
                 resolveReferences ast rest
                   (c\<lparr>m_internalDispatchCandidates :=
                        map_assign arity_less arity [p] (m_internalDispatchCandidates c)\<rparr>)))"

definition moveCollectedReferencesToDispatch ::
  "ast_store \<Rightarrow> IRGenerationContext \<Rightarrow> error + IRGenerationContext" where
  "moveCollectedReferencesToDispatch ast c =
     (case promoteCandidates ast (m_internalDispatch c) c of
        Inl err \<Rightarrow> Inl err
      | Inr (d, c1) \<Rightarrow>
          (case resolveReferences ast (m_dispatchableInternalFunctionReferences c1)
                  (c1\<lparr>m_internalDispatch := d\<rparr>) of
             Inl err \<Rightarrow> Inl err
           | Inr c2 \<Rightarrow> Inr (c2\<lparr>m_dispatchableInternalFunctionReferences := []\<rparr>)))"

subsection \<open>Synthesis of the dispatch function\<close>

text \<open>
  Modelled from the spec: \<open>suffixedVariableNameList\<close> (\<open>libsolutil/StringUtils.h\<close>) is
  absent from the sources. It yields the names \<open>base<i>\<close> for the suffixes from the start
  (included) to the end (excluded), separated by a comma and a space, in descending order
  when the end lies below the start: the \<open>arity.in\<close> arguments and \<open>arity.out\<close> results
  of the dispatch function.
\<close>

fun join_comma :: "string list \<Rightarrow> string" where
  "join_comma [] = []"
| "join_comma [x] = x"
| "join_comma (x # y # ys) = x @ '', '' @ join_comma (y # ys)"

definition suffixedVariableNameList :: "string \<Rightarrow> nat \<Rightarrow> nat \<Rightarrow> string" where
  "suffixedVariableNameList baseName startSuffix endSuffix =
     (if startSuffix < endSuffix
      then join_comma (map (\<lambda>i. baseName @ to_string (int i)) [startSuffix ..< endSuffix])
      else join_comma (map (\<lambda>i. baseName @ to_string (int i)) (rev [endSuffix ..< startSuffix])))"

text \<open>
  The cases of the dispatch are collected first, one per function of the set in the order
  of the set, each after its four assertions; \<open>functionArity\<close> holds one more.
\<close>

record DispatchCase =
  funID :: string
  name :: string

fun dispatchCases :: "ast_store \<Rightarrow> Arity \<Rightarrow> fptr list \<Rightarrow> error + DispatchCase list" where
  "dispatchCases ast arity [] = Inr []"
| "dispatchCases ast arity (p # ps) =
     (if p = 0 then Inl InternalCompilerError
      else case functionArity (ast p) of
          Inl err \<Rightarrow> Inl err
        | Inr a \<Rightarrow>
            if a \<noteq> arity then Inl InternalCompilerError
            else if fd_isConstructor (ast p) then Inl InternalCompilerError
            else if fd_id (ast p) = 0 then Inl InternalCompilerError
            else (case dispatchCases ast arity ps of
                    Inl err \<Rightarrow> Inl err
                  | Inr cases \<Rightarrow>
                      Inr (\<lparr>funID = to_string (fd_id (ast p)), name = functionName (ast p)\<rparr> # cases)))"

text \<open>
  Modelled from the spec: the template engine (\<open>libsolutil/Whiskers\<close>) is absent from the
  sources. Rendering replaces every tag of the template by the value set for it and emits
  the block between \<open><#cases>\<close> and \<open></cases>\<close> once per case, in order, which gives
  the multi-way branch with one forwarding case per function and the default that fails.
  The text between the tags is the template's own, line breaks and tabs included:
  \<open>indent n\<close> is a line break followed by \<open>n\<close> tabs.
\<close>

definition indent :: "nat \<Rightarrow> string" where
  "indent n = CHR 0x0A # replicate n (CHR 0x09)"

definition renderCase :: "Arity \<Rightarrow> DispatchCase \<Rightarrow> string" where
  "renderCase arity cs =
     indent 4 @ ''case '' @ funID cs @
     indent 4 @ ''{'' @
     indent 5 @ suffixedVariableNameList ''out_'' 0 (arity_out arity) @ '' '' @
       (if arity_out arity > 0 then '':='' else '''') @ '' '' @ name cs @
       ''('' @ suffixedVariableNameList ''in_'' 0 (arity_in arity) @ '')'' @
     indent 4 @ ''}'' @
     indent 4"

definition renderDispatch :: "string \<Rightarrow> Arity \<Rightarrow> DispatchCase list \<Rightarrow> string" where
  "renderDispatch funName arity cases =
     indent 3 @ ''function '' @ funName @ ''(fun '' @
       (if arity_in arity > 0 then '','' else '''') @ '' '' @
       suffixedVariableNameList ''in_'' 0 (arity_in arity) @ '') '' @
       (if arity_out arity > 0 then ''->'' else '''') @ '' '' @
       suffixedVariableNameList ''out_'' 0 (arity_out arity) @ '' {'' @
     indent 4 @ ''switch fun'' @
     indent 4 @ concat (map (renderCase arity) cases) @
     indent 4 @ ''default { invalid() }'' @
     indent 3 @ ''}'' @
     indent 2"

definition internalDispatch ::
  "ast_store \<Rightarrow> IRGenerationContext \<Rightarrow> Arity \<Rightarrow> fptr list \<Rightarrow> error + (string \<times> IRGenerationContext)" where
  "internalDispatch ast c arity functions =
     (case dispatchCases ast arity functions of
        Inl err \<Rightarrow> Inl err
      | Inr cases \<Rightarrow>
          (let funName = internalDispatchFunctionName arity;
               (result, fs) = createFunction (m_functions c) funName
                                (renderDispatch funName arity cases)
           in Inr (result, c\<lparr>m_functions := fs\<rparr>)))"

section \<open>The reasoning-based simplifier\<close>

subsection \<open>Yul syntax\<close>

text \<open>
  The Yul AST is declared in \<open>libyul/AsmData.h\<close>, which is not among the sources; the
  constructors and fields below are those the pass and its base class use
  (\<open>_if.condition\<close>, \<open>_if.body\<close>, \<open>_varDecl.variables\<close>, \<open>_varDecl.value\<close>,
  \<open>_functionCall.functionName.name\<close>, \<open>_functionCall.arguments\<close>,
  \<open>Literal{location, kind, value, type}\<close>). Names are the text of a \<open>YulString\<close>.
  Source locations and the type name of a literal, which the pass only copies, are left
  out. A case of a switch holds its literal, or nothing for the default case.
\<close>

datatype LiteralKind = Number | Boolean | String

datatype Expression =
    FunctionCall string "Expression list"
  | Identifier string
  | Literal LiteralKind string

datatype Statement =
    ExpressionStatement Expression
  | Assignment "string list" Expression
  | VariableDeclaration "string list" "Expression option"
  | FunctionDefinition string "string list" "string list" "Statement list"
  | If Expression "Statement list"
  | Switch Expression "((LiteralKind \<times> string) option \<times> Statement list) list"
  | ForLoop "Statement list" Expression "Statement list" "Statement list"
  | Break
  | Continue
  | Leave
  | Block "Statement list"

text \<open>
  Of the dialect (\<open>libyul/Dialect.h\<close>, \<open>libyul/backends/evm/EVMDialect.h\<close>, not among
  the sources) the pass asks whether it is the EVM dialect and, if so, which builtin a
  name denotes (\<open>builtin(name)\<close>, possibly null) and which instruction the builtin
  stands for (\<open>builtin->instruction\<close>, possibly empty). Of the instructions only \<open>LT\<close>,
  \<open>GT\<close> and \<open>ADD\<close> are told apart by the pass; the others are named by their mnemonic.
\<close>

datatype Instruction = ADD | LT | GT | OtherInstruction string

datatype Dialect = EVMDialect "string \<Rightarrow> Instruction option option" | OtherDialect

text \<open>
  Modelled from the spec: \<open>valueOfLiteral\<close> (\<open>libyul/Utilities\<close>) is absent from the
  sources. A numeric literal resolves to its exact integer value, read from its decimal
  text, or from its hexadecimal text after \<open>0x\<close>; \<open>true\<close> is 1 and \<open>false\<close> is 0; the
  bytes of a string literal are read as a big-endian number, left-aligned in 32 bytes.
\<close>

definition digit_value :: "char \<Rightarrow> nat" where
  "digit_value ch =
     (let n = of_char ch in
      if 48 \<le> n \<and> n \<le> 57 then n - 48
      else if 97 \<le> n \<and> n \<le> 102 then n - 87
      else if 65 \<le> n \<and> n \<le> 70 then n - 55
      else 0)"

definition number_value :: "nat \<Rightarrow> string \<Rightarrow> nat" where
  "number_value radix text = foldl (\<lambda>acc ch. radix * acc + digit_value ch) 0 text"

definition valueOfLiteral :: "LiteralKind \<Rightarrow> string \<Rightarrow> int" where
  "valueOfLiteral kind text =
     (case kind of
        Number \<Rightarrow>
          if take 2 text = ''0x'' then int (number_value 16 (drop 2 text))
          else int (number_value 10 text)
      | Boolean \<Rightarrow> (if text = ''true'' then 1 else 0)
      | String \<Rightarrow>
          int (foldl (\<lambda>acc b. 256 * acc + b) 0
                 (take 32 (map of_char text @ replicate 32 0))))"

subsection \<open>The prover\<close>

text \<open>
  Modelled from the spec: the prover (\<open>SolverInterface\<close>, \<open>Z3Interface\<close>,
  \<open>smt::Expression\<close>) is an external collaborator, absent from the sources. Its
  interface is \<open>newVariable\<close>, \<open>addAssertion\<close>, \<open>push\<close>, \<open>pop\<close> and \<open>check\<close> with the
  answers \<open>SATISFIABLE\<close>, \<open>UNSATISFIABLE\<close> and \<open>UNKNOWN\<close>; assumptions are a stack.
  The state of a prover session is the list of declared variables, the assertions in
  force, and for every open scope the assertions that were in force when it was opened:
  \<open>push\<close> saves them and \<open>pop\<close> restores them. How the prover answers a query is its
  own business: \<open>check\<close> is a parameter of the pass, a function of the assertions in
  force. The formulas are those the pass builds: integer constants, variables,
  \<open>ite\<close>, \<open><\<close>, \<open>>\<close>, \<open>+\<close>, \<open>=\<close> and negation (\<open>a != b\<close> is \<open>!(a == b)\<close>).
\<close>

datatype smt =
    Num int
  | Var string
  | Ite smt smt smt
  | Less smt smt
  | Greater smt smt
  | Add smt smt
  | Eq smt smt
  | Neg smt

datatype CheckResult = SATISFIABLE | UNSATISFIABLE | UNKNOWN

record Solver =
  declared :: "string list"
  assertions :: "smt list"
  saved :: "smt list list"

type_synonym Check = "smt list \<Rightarrow> CheckResult"

definition solver_newVariable :: "string \<Rightarrow> Solver \<Rightarrow> smt \<times> Solver" where
  "solver_newVariable x sv = (Var x, sv\<lparr>declared := x # declared sv\<rparr>)"

definition addAssertion :: "smt \<Rightarrow> Solver \<Rightarrow> Solver" where
  "addAssertion e sv = sv\<lparr>assertions := e # assertions sv\<rparr>"

definition push :: "Solver \<Rightarrow> Solver" where
  "push sv = sv\<lparr>saved := assertions sv # saved sv\<rparr>"

text \<open>A \<open>pop\<close> without an open scope is outside the interface; the pass never does it.\<close>

definition pop :: "Solver \<Rightarrow> Solver" where
  "pop sv =
     (case saved sv of
        [] \<Rightarrow> sv
      | a # rest \<Rightarrow> sv\<lparr>assertions := a, saved := rest\<rparr>)"

subsection \<open>The pass\<close>

text \<open>
  The mutable members of \<open>ReasoningBasedSimplifier\<close>. The dialect and the set of SSA
  variables are references to constants and are passed as parameters, as is the prover's
  \<open>check\<close>. The constructor starts a session with nothing declared or asserted.
\<close>

record Simplifier =
  m_solver :: Solver
  m_variables :: "string \<rightharpoonup> smt"
  m_varCounter :: nat

definition initialSimplifier :: Simplifier where
  "initialSimplifier =
     \<lparr> m_solver = \<lparr>declared = [], assertions = [], saved = []\<rparr>,
       m_variables = Map.empty,
       m_varCounter = 0 \<rparr>"

definition uniqueName :: "Simplifier \<Rightarrow> string \<times> Simplifier" where
  "uniqueName s = (''expr_'' @ to_string (int (m_varCounter s)), s\<lparr>m_varCounter := m_varCounter s + 1\<rparr>)"

definition newVariable :: "Simplifier \<Rightarrow> smt \<times> Simplifier" where
  "newVariable s =
     (let (x, s1) = uniqueName s;
          (v, sv) = solver_newVariable x (m_solver s1)
      in (v, s1\<lparr>m_solver := sv\<rparr>))"

text \<open>\<open>std::vector::at\<close> throws \<open>std::out_of_range\<close> for an index past the end.\<close>

definition at :: "'a list \<Rightarrow> nat \<Rightarrow> error + 'a" where
  "at xs i = (if i < length xs then Inr (xs ! i) else Inl OutOfRange)"

text \<open>
  The switch of \<open>encodeBuiltin\<close>, after the arguments have been encoded.
\<close>

definition encodeInstruction :: "Instruction \<Rightarrow> smt list \<Rightarrow> Simplifier \<Rightarrow> error + (smt \<times> Simplifier)" where
  "encodeInstruction instruction arguments s =
     (case instruction of
        LT \<Rightarrow>
          (case at arguments 0 of Inl err \<Rightarrow> Inl err | Inr a \<Rightarrow>
           case at arguments 1 of Inl err \<Rightarrow> Inl err | Inr b \<Rightarrow>
             Inr (Ite (Less a b) (Num 1) (Num 0), s))
      | GT \<Rightarrow>
          (case at arguments 0 of Inl err \<Rightarrow> Inl err | Inr a \<Rightarrow>
           case at arguments 1 of Inl err \<Rightarrow> Inl err | Inr b \<Rightarrow>
             Inr (Ite (Greater a b) (Num 1) (Num 0), s))
      | ADD \<Rightarrow>
          (case at arguments 0 of Inl err \<Rightarrow> Inl err | Inr a \<Rightarrow>
           case at arguments 1 of Inl err \<Rightarrow> Inl err | Inr b \<Rightarrow>
             Inr (Add a b, s))
      | OtherInstruction opcode \<Rightarrow> Inr (newVariable s))"

text \<open>
  \<open>encodeExpression\<close> and \<open>encodeBuiltin\<close> call each other; \<open>encodeArguments\<close> is the
  \<open>applyMap\<close> over the arguments, from left to right.
\<close>

fun encodeExpression :: "Dialect \<Rightarrow> string set \<Rightarrow> Expression \<Rightarrow> Simplifier \<Rightarrow> error + (smt \<times> Simplifier)"
  and encodeBuiltin :: "Dialect \<Rightarrow> string set \<Rightarrow> Instruction \<Rightarrow> Expression list \<Rightarrow> Simplifier \<Rightarrow> error + (smt \<times> Simplifier)"
  and encodeArguments :: "Dialect \<Rightarrow> string set \<Rightarrow> Expression list \<Rightarrow> Simplifier \<Rightarrow> error + (smt list \<times> Simplifier)"
where
  "encodeExpression dialect ssa (FunctionCall fname arguments) s =
     (case dialect of
        OtherDialect \<Rightarrow> Inr (newVariable s)
      | EVMDialect builtin \<Rightarrow>
          (case builtin fname of
             None \<Rightarrow> Inr (newVariable s)
           | Some None \<Rightarrow> Inr (newVariable s)
           | Some (Some instruction) \<Rightarrow> encodeBuiltin dialect ssa instruction arguments s))"
| "encodeExpression dialect ssa (Identifier x) s =
     (if x \<in> ssa then
        (case m_variables s x of
           Some v \<Rightarrow> Inr (v, s)
         | None \<Rightarrow> Inr (newVariable s))
      else Inr (newVariable s))"
| "encodeExpression dialect ssa (Literal kind text) s = Inr (Num (valueOfLiteral kind text), s)"
| "encodeBuiltin dialect ssa instruction arguments s =
     (case encodeArguments dialect ssa arguments s of
        Inl err \<Rightarrow> Inl err
      | Inr (encoded, s1) \<Rightarrow> encodeInstruction instruction encoded s1)"
| "encodeArguments dialect ssa [] s = Inr ([], s)"
| "encodeArguments dialect ssa (e # es) s =
     (case encodeExpression dialect ssa e s of
        Inl err \<Rightarrow> Inl err
      | Inr (v, s1) \<Rightarrow>
          (case encodeArguments dialect ssa es s1 of
             Inl err \<Rightarrow> Inl err
           | Inr (vs, s2) \<Rightarrow> Inr (v # vs, s2)))"

text \<open>
  \<open>operator()(VariableDeclaration&)\<close>. \<open>std::map::insert\<close> keeps the value of a name
  that is already bound; the prover's variable is declared in either case.
\<close>

definition visitVariableDeclaration ::
  "Dialect \<Rightarrow> string set \<Rightarrow> string list \<Rightarrow> Expression option \<Rightarrow> Simplifier \<Rightarrow> error + Simplifier" where
  "visitVariableDeclaration dialect ssa variables val s =
     (case val of
        None \<Rightarrow> Inr s
      | Some e \<Rightarrow>
          if length variables \<noteq> 1 then Inr s
          else
            (let varName = hd variables in
             if varName \<notin> ssa then Inr s
             else
               (let (v, sv) = solver_newVariable (''yul_'' @ varName) (m_solver s);
                    bound = (case m_variables s varName of None \<Rightarrow> v | Some old \<Rightarrow> old);
                    s1 = s\<lparr>m_solver := sv, m_variables := (m_variables s)(varName \<mapsto> bound)\<rparr>
                in case encodeExpression dialect ssa e s1 of
                     Inl err \<Rightarrow> Inl err
                   | Inr (encoded, s2) \<Rightarrow>
                       Inr (s2\<lparr>m_solver := addAssertion (Eq bound encoded) (m_solver s2)\<rparr>))))"

text \<open>
  The walk over the statements. The equations for \<open>If\<close> and \<open>VariableDeclaration\<close>
  are the two overrides of the pass, \<open>operator()(If&)\<close> and
  \<open>operator()(VariableDeclaration&)\<close>; the condition of an \<open>if\<close> is encoded once, and
  all three scopes assert formulas over that one encoding.
\<close>

text \<open>
  Modelled from the spec: the base class \<open>ASTModifier\<close> (\<open>libyul/optimiser/ASTWalker\<close>)
  is absent from the sources. It walks the tree in pre-order, entering the body of a
  function definition, the bodies of the cases of a switch, the parts of a loop and the
  statements of a block, and it changes nothing itself. The expressions it would visit
  are left as they are, since the pass overrides no visit of an expression.
\<close>

fun visitStatement :: "Check \<Rightarrow> Dialect \<Rightarrow> string set \<Rightarrow> Statement \<Rightarrow> Simplifier \<Rightarrow> error + (Statement \<times> Simplifier)"
  and visitBlock :: "Check \<Rightarrow> Dialect \<Rightarrow> string set \<Rightarrow> Statement list \<Rightarrow> Simplifier \<Rightarrow> error + (Statement list \<times> Simplifier)"
  and visitCases :: "Check \<Rightarrow> Dialect \<Rightarrow> string set \<Rightarrow> ((LiteralKind \<times> string) option \<times> Statement list) list \<Rightarrow> Simplifier \<Rightarrow>
      error + (((LiteralKind \<times> string) option \<times> Statement list) list \<times> Simplifier)"
where
  "visitStatement check dialect ssa (If cond body) s =
     (case encodeExpression dialect ssa cond s of
        Inl err \<Rightarrow> Inl err
      | Inr (condition, s0) \<Rightarrow>
          (let sv1 = addAssertion (Eq condition (Num 0)) (push (m_solver s0));
               result = check (assertions sv1);
               sv2 = pop sv1;
               cond1 = (if result = UNSATISFIABLE then Literal Number ''1'' else cond);
               sv3 = addAssertion (Neg (Eq condition (Num 0))) (push sv2);
               result2 = check (assertions sv3);
               sv4 = pop sv3;
               cond2 = (if result2 = UNSATISFIABLE then Literal Number ''0'' else cond1);
               sv5 = addAssertion (Neg (Eq condition (Num 0))) (push sv4)
           in case visitBlock check dialect ssa body (s0\<lparr>m_solver := sv5\<rparr>) of
                Inl err \<Rightarrow> Inl err
              | Inr (body', s1) \<Rightarrow> Inr (If cond2 body', s1\<lparr>m_solver := pop (m_solver s1)\<rparr>)))"
| "visitStatement check dialect ssa (VariableDeclaration variables val) s =
     (case visitVariableDeclaration dialect ssa variables val s of
        Inl err \<Rightarrow> Inl err
      | Inr s1 \<Rightarrow> Inr (VariableDeclaration variables val, s1))"
| "visitStatement check dialect ssa (ExpressionStatement e) s = Inr (ExpressionStatement e, s)"
| "visitStatement check dialect ssa (Assignment variableNames e) s = Inr (Assignment variableNames e, s)"
| "visitStatement check dialect ssa (FunctionDefinition f parameters returnVariables body) s =
     (case visitBlock check dialect ssa body s of
        Inl err \<Rightarrow> Inl err
      | Inr (body', s1) \<Rightarrow> Inr (FunctionDefinition f parameters returnVariables body', s1))"
| "visitStatement check dialect ssa (Switch e cases) s =
     (case visitCases check dialect ssa cases s of
        Inl err \<Rightarrow> Inl err
      | Inr (cases', s1) \<Rightarrow> Inr (Switch e cases', s1))"
| "visitStatement check dialect ssa (ForLoop pre cond post body) s =
     (case visitBlock check dialect ssa pre s of
        Inl err \<Rightarrow> Inl err
      | Inr (pre', s1) \<Rightarrow>
          (case visitBlock check dialect ssa post s1 of
             Inl err \<Rightarrow> Inl err
           | Inr (post', s2) \<Rightarrow>
               (case visitBlock check dialect ssa body s2 of
                  Inl err \<Rightarrow> Inl err
                | Inr (body', s3) \<Rightarrow> Inr (ForLoop pre' cond post' body', s3))))"
| "visitStatement check dialect ssa Break s = Inr (Break, s)"
| "visitStatement check dialect ssa Continue s = Inr (Continue, s)"
| "visitStatement check dialect ssa Leave s = Inr (Leave, s)"
| "visitStatement check dialect ssa (Block statements) s =
     (case visitBlock check dialect ssa statements s of
        Inl err \<Rightarrow> Inl err
      | Inr (statements', s1) \<Rightarrow> Inr (Block statements', s1))"
| "visitBlock check dialect ssa [] s = Inr ([], s)"
| "visitBlock check dialect ssa (st # sts) s =
     (case visitStatement check dialect ssa st s of
        Inl err \<Rightarrow> Inl err
      | Inr (st', s1) \<Rightarrow>
          (case visitBlock check dialect ssa sts s1 of
             Inl err \<Rightarrow> Inl err
           | Inr (sts', s2) \<Rightarrow> Inr (st' # sts', s2)))"
| "visitCases check dialect ssa [] s = Inr ([], s)"
| "visitCases check dialect ssa ((val, body) # cases) s =
     (case visitBlock check dialect ssa body s of
        Inl err \<Rightarrow> Inl err
      | Inr (body', s1) \<Rightarrow>
          (case visitCases check dialect ssa cases s1 of
             Inl err \<Rightarrow> Inl err
           | Inr (cases', s2) \<Rightarrow> Inr ((val, body') # cases', s2)))"

subsection \<open>Well-formed input\<close>

text \<open>
  The Yul analyser, which runs before every optimiser step, accepts a call of a builtin
  only with the number of arguments the builtin takes. What the encoding needs of that is
  less: every call of \<open>lt\<close>, \<open>gt\<close> or \<open>add\<close> that it reaches has at least two arguments.
  The arguments of a call that is not encoded argument by argument (a user function, a
  builtin without instruction, a foreign dialect) are never looked at.
\<close>

fun encodable :: "Dialect \<Rightarrow> Expression \<Rightarrow> bool"
  and encodableArguments :: "Dialect \<Rightarrow> Expression list \<Rightarrow> bool"
where
  "encodable dialect (FunctionCall fname arguments) =
     (case dialect of
        OtherDialect \<Rightarrow> True
      | EVMDialect builtin \<Rightarrow>
          (case builtin fname of
             None \<Rightarrow> True
           | Some None \<Rightarrow> True
           | Some (Some instruction) \<Rightarrow>
               encodableArguments dialect arguments \<and>
               (case instruction of
                  OtherInstruction opcode \<Rightarrow> True
                | _ \<Rightarrow> 2 \<le> length arguments)))"
| "encodable dialect (Identifier x) = True"
| "encodable dialect (Literal kind text) = True"
| "encodableArguments dialect [] = True"
| "encodableArguments dialect (e # es) = (encodable dialect e \<and> encodableArguments dialect es)"

text \<open>
  A statement is well formed when every condition of an \<open>if\<close> and every value of a
  variable declaration in it is.
\<close>

fun wellFormed :: "Dialect \<Rightarrow> Statement \<Rightarrow> bool"
  and wellFormedBlock :: "Dialect \<Rightarrow> Statement list \<Rightarrow> bool"
  and wellFormedCases :: "Dialect \<Rightarrow> ((LiteralKind \<times> string) option \<times> Statement list) list \<Rightarrow> bool"
where
  "wellFormed dialect (If cond body) = (encodable dialect cond \<and> wellFormedBlock dialect body)"
| "wellFormed dialect (VariableDeclaration variables val) =
     (case val of None \<Rightarrow> True | Some e \<Rightarrow> encodable dialect e)"
| "wellFormed dialect (ExpressionStatement e) = True"
| "wellFormed dialect (Assignment variableNames e) = True"
| "wellFormed dialect (FunctionDefinition f parameters returnVariables body) = wellFormedBlock dialect body"
| "wellFormed dialect (Switch e cases) = wellFormedCases dialect cases"
| "wellFormed dialect (ForLoop pre cond post body) =
     (wellFormedBlock dialect pre \<and> wellFormedBlock dialect post \<and> wellFormedBlock dialect body)"
| "wellFormed dialect Break = True"
| "wellFormed dialect Continue = True"
| "wellFormed dialect Leave = True"
| "wellFormed dialect (Block statements) = wellFormedBlock dialect statements"
| "wellFormedBlock dialect [] = True"
| "wellFormedBlock dialect (st # sts) = (wellFormed dialect st \<and> wellFormedBlock dialect sts)"
| "wellFormedCases dialect [] = True"
| "wellFormedCases dialect ((val, body) # cases) =
     (wellFormedBlock dialect body \<and> wellFormedCases dialect cases)"

subsection \<open>Variables of a formula\<close>

fun smt_vars :: "smt \<Rightarrow> string set" where
  "smt_vars (Num n) = {}"
| "smt_vars (Var x) = {x}"
| "smt_vars (Ite c a b) = smt_vars c \<union> smt_vars a \<union> smt_vars b"
| "smt_vars (Less a b) = smt_vars a \<union> smt_vars b"
| "smt_vars (Greater a b) = smt_vars a \<union> smt_vars b"
| "smt_vars (Add a b) = smt_vars a \<union> smt_vars b"
| "smt_vars (Eq a b) = smt_vars a \<union> smt_vars b"
| "smt_vars (Neg a) = smt_vars a"

text \<open>
  The names the counter has not reached yet occur nowhere in the session: not among the
  declared variables, not in an assertion in force or saved, not in a bound variable.
\<close>

definition counterFresh :: "Simplifier \<Rightarrow> bool" where
  "counterFresh s \<longleftrightarrow>
     (\<forall>k. m_varCounter s \<le> k \<longrightarrow>
        ''expr_'' @ to_string (int k) \<notin> set (declared (m_solver s)) \<and>
        ''expr_'' @ to_string (int k) \<notin> \<Union> (smt_vars ` set (assertions (m_solver s))) \<and>
        ''expr_'' @ to_string (int k) \<notin> \<Union> (smt_vars ` set (concat (saved (m_solver s)))) \<and>
        ''expr_'' @ to_string (int k) \<notin> \<Union> (smt_vars ` ran (m_variables s)))"

subsection \<open>A prover for closed formulas\<close>

text \<open>
  A small instance of the prover's \<open>check\<close>, used for the examples: it evaluates the
  assertions that mention no variable, answers \<open>UNSATISFIABLE\<close> when one of them is
  false, \<open>SATISFIABLE\<close> when all assertions are closed and true, and \<open>UNKNOWN\<close>
  otherwise. Truth values are 1 and 0.
\<close>

fun smt_value :: "smt \<Rightarrow> int option" where
  "smt_value (Num n) = Some n"
| "smt_value (Var x) = None"
| "smt_value (Ite c a b) =
     (case smt_value c of
        None \<Rightarrow> None
      | Some t \<Rightarrow> if t \<noteq> 0 then smt_value a else smt_value b)"
| "smt_value (Less a b) =
     (case (smt_value a, smt_value b) of
        (Some x, Some y) \<Rightarrow> Some (if x < y then 1 else 0)
      | _ \<Rightarrow> None)"
| "smt_value (Greater a b) =
     (case (smt_value a, smt_value b) of
        (Some x, Some y) \<Rightarrow> Some (if x > y then 1 else 0)
      | _ \<Rightarrow> None)"
| "smt_value (Add a b) =
     (case (smt_value a, smt_value b) of
        (Some x, Some y) \<Rightarrow> Some (x + y)
      | _ \<Rightarrow> None)"
| "smt_value (Eq a b) =
     (case (smt_value a, smt_value b) of
        (Some x, Some y) \<Rightarrow> Some (if x = y then 1 else 0)
      | _ \<Rightarrow> None)"
| "smt_value (Neg a) =
     (case smt_value a of
        None \<Rightarrow> None
      | Some t \<Rightarrow> Some (if t = 0 then 1 else 0))"

definition groundCheck :: Check where
  "groundCheck as =
     (if list_ex (\<lambda>a. smt_value a = Some 0) as then UNSATISFIABLE
      else if list_all (\<lambda>a. smt_value a \<noteq> None) as then SATISFIABLE
      else UNKNOWN)"

definition evmBuiltins :: "string \<Rightarrow> Instruction option option" where
  "evmBuiltins fname =
     (if fname = ''lt'' then Some (Some LT)
      else if fname = ''gt'' then Some (Some GT)
      else if fname = ''add'' then Some (Some ADD)
      else if fname = ''mul'' then Some (Some (OtherInstruction ''MUL''))
      else if fname = ''datasize'' then Some None
      else None)"

subsection \<open>What the encoding leaves alone\<close>

text \<open>
  Between two states of the pass the assertions in force, the open scopes and the bound
  variables are the same, and the counter has not gone back.
\<close>

definition same_scopes :: "Simplifier \<Rightarrow> Simplifier \<Rightarrow> bool" where
  "same_scopes s s' \<longleftrightarrow>
     assertions (m_solver s') = assertions (m_solver s) \<and>
     saved (m_solver s') = saved (m_solver s) \<and>
     m_variables s' = m_variables s \<and>
     m_varCounter s \<le> m_varCounter s'"

definition exprBelow :: "nat \<Rightarrow> smt \<Rightarrow> bool" where
  "exprBelow n v \<longleftrightarrow> (\<forall>k. n \<le> k \<longrightarrow> ''expr_'' @ to_string (int k) \<notin> smt_vars v)"

section \<open>Example inputs\<close>

text \<open>
  Concrete AST stores and contexts at which the theorems below are instantiated.
\<close>

definition example_ast :: ast_store where
  "example_ast p =
     (if p = 16 then \<lparr>fd_id = 7, fd_name = ''g'', fd_isConstructor = False,
                       fd_callable = Some \<lparr>arity_in = 1, arity_out = 1\<rparr>\<rparr>
      else if p = 32 then \<lparr>fd_id = 3, fd_name = ''f'', fd_isConstructor = False,
                            fd_callable = Some \<lparr>arity_in = 1, arity_out = 1\<rparr>\<rparr>
      else \<lparr>fd_id = 9, fd_name = ''h'', fd_isConstructor = False,
             fd_callable = Some \<lparr>arity_in = 0, arity_out = 2\<rparr>\<rparr>)"

definition example_pending :: IRGenerationContext where
  "example_pending =
     initialContext
       \<lparr> m_internalDispatch := [(\<lparr>arity_in = 1, arity_out = 1\<rparr>, [])],
         m_internalDispatchCandidates := [(\<lparr>arity_in = 1, arity_out = 1\<rparr>, [16])],
         m_dispatchableInternalFunctionReferences := [(100, 32), (101, 48)] \<rparr>"

definition example_promoted :: IRGenerationContext where
  "example_promoted =
     initialContext
       \<lparr> m_functionGenerationQueue := [16, 32],
         m_internalDispatch := [(\<lparr>arity_in = 1, arity_out = 1\<rparr>, [16, 32])],
         m_internalDispatchCandidates := [(\<lparr>arity_in = 0, arity_out = 2\<rparr>, [48])] \<rparr>"

definition example_queued :: IRGenerationContext where
  "example_queued =
     snd (enqueueFunctionForCodeGeneration example_ast
            (snd (enqueueFunctionForCodeGeneration example_ast initialContext 32)) 16)"

definition example_vars :: var_store where
  "example_vars v = \<lparr>vd_immutable = True, vd_isValueType = True, vd_memoryHeadSize = 32\<rparr>"

definition example_dialect :: Dialect where
  "example_dialect = EVMDialect evmBuiltins"

definition example_nested :: Statement where
  "example_nested = If (Literal Number ''0'') [If (Identifier ''x'') []]"

definition example_dead_branch :: Simplifier where
  "example_dead_branch =
     \<lparr> m_solver = \<lparr>declared = [], assertions = [Neg (Eq (Num 0) (Num 0))], saved = [[]]\<rparr>,
       m_variables = Map.empty,
       m_varCounter = 0 \<rparr>"

definition example_decided :: Statement where
  "example_decided =
     If (FunctionCall ''lt'' [Literal Number ''1'', Literal Number ''2''])
        [If (FunctionCall ''gt'' [Literal Number ''1'', Literal Number ''2'']) [],
         If (FunctionCall ''f'' []) [Leave]]"

definition example_tracked :: Simplifier where
  "example_tracked =
     \<lparr> m_solver = \<lparr>declared = [''yul_x''], assertions = [Eq (Var ''yul_x'') (Num 5)], saved = []\<rparr>,
       m_variables = [''x'' \<mapsto> Var ''yul_x''],
       m_varCounter = 0 \<rparr>"

section \<open>Verified properties\<close>

lemma digit_char_inj: "d < 10 \<Longrightarrow> e < 10 \<Longrightarrow> digit_char d = digit_char e \<Longrightarrow> d = e"
  by (simp add: digit_char_def split: if_splits) arith

lemma digit_char_not_underscore: "digit_char d \<noteq> CHR ''_''"
  by (simp add: digit_char_def)

lemma to_string_nat_not_Nil: "to_string_nat n \<noteq> []"
  by (subst to_string_nat.simps) simp

lemma to_string_nat_length1: "length (to_string_nat n) = Suc 0 \<longleftrightarrow> n < 10"
  by (subst to_string_nat.simps) (simp add: to_string_nat_not_Nil)

lemma to_string_nat_inj: "to_string_nat n = to_string_nat m \<Longrightarrow> n = m"
proof (induction n arbitrary: m rule: to_string_nat.induct)
  case (1 n)
  show ?case
  proof (cases "n < 10")
    case True
    with "1.prems" have "length (to_string_nat m) = Suc 0"
      using to_string_nat_length1 [of n] by simp
    then have m: "m < 10" by (simp add: to_string_nat_length1)
    from "1.prems" True m have "digit_char n = digit_char m"
      by (simp add: to_string_nat.simps [of n] to_string_nat.simps [of m])
    with True m show ?thesis by (rule digit_char_inj)
  next
    case False
    then have "length (to_string_nat n) \<noteq> Suc 0" by (simp add: to_string_nat_length1)
    with "1.prems" have m: "\<not> m < 10" by (simp add: to_string_nat_length1)
    from "1.prems" False m
    have eq: "to_string_nat (n div 10) @ [digit_char (n mod 10)] =
              to_string_nat (m div 10) @ [digit_char (m mod 10)]"
      by (simp add: to_string_nat.simps [of n] to_string_nat.simps [of m])
    then have "to_string_nat (n div 10) = to_string_nat (m div 10)" by simp
    with False have d: "n div 10 = m div 10" by (rule "1.IH")
    from eq have "digit_char (n mod 10) = digit_char (m mod 10)" by simp
    then have "n mod 10 = m mod 10" by (intro digit_char_inj) simp_all
    with d show ?thesis by (metis div_mult_mod_eq)
  qed
qed

lemma to_string_nat_no_underscore: "CHR ''_'' \<notin> set (to_string_nat n)"
proof (induction n rule: to_string_nat.induct)
  case (1 n)
  then show ?case
    by (subst to_string_nat.simps) (auto simp: digit_char_def)
qed

lemma to_string_nat_no_minus: "CHR ''-'' \<notin> set (to_string_nat n)"
proof (induction n rule: to_string_nat.induct)
  case (1 n)
  then show ?case
    by (subst to_string_nat.simps) (auto simp: digit_char_def)
qed

lemma to_string_inj: "to_string i = to_string j \<Longrightarrow> i = j"
proof -
  assume eq: "to_string i = to_string j"
  have hd_nat: "\<And>n. hd (to_string_nat n) \<noteq> CHR ''-''"
    using to_string_nat_no_minus to_string_nat_not_Nil by (metis hd_in_set)
  show ?thesis
  proof (cases "i < 0")
    case True
    show ?thesis
    proof (cases "j < 0")
      case True
      with \<open>i < 0\<close> eq have "nat (- i) = nat (- j)"
        by (auto simp: to_string_def dest: to_string_nat_inj)
      with True \<open>i < 0\<close> show ?thesis by simp
    next
      case False
      with True eq have "hd (to_string_nat (nat j)) = CHR ''-''"
        by (simp add: to_string_def) (metis list.sel(1))
      with hd_nat show ?thesis by blast
    qed
  next
    case False
    show ?thesis
    proof (cases "j < 0")
      case True
      with False eq have "hd (to_string_nat (nat i)) = CHR ''-''"
        by (simp add: to_string_def)
      with hd_nat show ?thesis by blast
    next
      case False
      with \<open>\<not> i < 0\<close> eq have "nat i = nat j"
        by (auto simp: to_string_def dest: to_string_nat_inj)
      with False \<open>\<not> i < 0\<close> show ?thesis by simp
    qed
  qed
qed

lemma to_string_no_underscore: "CHR ''_'' \<notin> set (to_string i)"
  by (simp add: to_string_def to_string_nat_no_underscore)

lemma suffix_after_last_separator:
  assumes "xs @ c # s = ys @ c # t" and "c \<notin> set s" and "c \<notin> set t"
  shows "s = t"
proof -
  have "\<And>zs u. c \<notin> set u \<Longrightarrow> takeWhile (\<lambda>x. x \<noteq> c) (rev (zs @ c # u)) = rev u"
    by (simp add: takeWhile_tail) auto
  then have "rev s = rev t" using assms by metis
  then show ?thesis by simp
qed

lemma functionName_inj: "functionName f = functionName g \<Longrightarrow> fd_id f = fd_id g"
proof -
  assume "functionName f = functionName g"
  then have "fd_name f @ CHR ''_'' # to_string (fd_id f) = fd_name g @ CHR ''_'' # to_string (fd_id g)"
    by (simp add: functionName_def)
  then have "to_string (fd_id f) = to_string (fd_id g)"
    by (rule suffix_after_last_separator) (rule to_string_no_underscore)+
  then show ?thesis by (rule to_string_inj)
qed

lemma set_insert_sorted: "set (insert_sorted p xs) = insert p (set xs)"
  by (induction xs) auto

lemma set_set_insert: "set (set_insert p xs) = insert p (set xs)"
  by (auto simp: set_insert_def set_insert_sorted)

lemma set_insert_idem: "set_insert p (set_insert p xs) = set_insert p xs"
  by (simp add: set_insert_def set_insert_sorted)

lemma sorted_insert_sorted: "sorted_wrt (<) xs \<Longrightarrow> p \<notin> set xs \<Longrightarrow> sorted_wrt (<) (insert_sorted p xs)"
  by (induction xs) (auto simp: set_insert_sorted)

lemma sorted_set_insert: "sorted_wrt (<) xs \<Longrightarrow> sorted_wrt (<) (set_insert p xs)"
  by (simp add: set_insert_def sorted_insert_sorted)

lemma count_insert_sorted: "count_list (insert_sorted p xs) q = (if p = q then Suc (count_list xs q) else count_list xs q)"
  by (induction xs) auto

lemma count_set_insert: "count_list xs p \<le> 1 \<Longrightarrow> count_list (set_insert p xs) p \<le> 1"
  by (simp add: set_insert_def count_insert_sorted count_list_0_iff)

lemma strict_sorted_count: "sorted_wrt (<) (xs :: nat list) \<Longrightarrow> count_list xs p \<le> 1"
  by (induction xs) auto

lemma map_keys_Nil [simp]: "map_keys [] = {}"
  by (simp add: map_keys_def)

lemma map_keys_Cons [simp]: "map_keys (e # m) = insert (fst e) (map_keys m)"
  by (simp add: map_keys_def)

lemma map_find_None_iff: "map_find k m = None \<longleftrightarrow> k \<notin> map_keys m"
proof (induction m)
  case Nil
  show ?case by simp
next
  case (Cons e m)
  obtain k' v' where e: "e = (k', v')" by (cases e)
  show ?case using Cons.IH by (simp add: e)
qed

lemma map_keys_insert_sorted: "map_keys (map_insert_sorted lt k v m) = insert k (map_keys m)"
proof (induction m)
  case Nil
  show ?case by simp
next
  case (Cons e m)
  obtain k' v' where e: "e = (k', v')" by (cases e)
  show ?case using Cons.IH by (simp add: e insert_commute)
qed

lemma map_keys_overwrite: "map_keys (map_overwrite k v m) = map_keys m"
proof (induction m)
  case Nil
  show ?case by simp
next
  case (Cons e m)
  obtain k' v' where e: "e = (k', v')" by (cases e)
  show ?case using Cons.IH by (simp add: e)
qed

lemma map_keys_erase: "map_keys (map_erase k m) = map_keys m - {k}"
proof (induction m)
  case Nil
  show ?case by simp
next
  case (Cons e m)
  obtain k' v' where e: "e = (k', v')" by (cases e)
  show ?case using Cons.IH by (auto simp add: e)
qed

lemma map_find_Some_key: "map_find k m = Some v \<Longrightarrow> k \<in> map_keys m"
  using map_find_None_iff [of k m] by simp

lemma map_keys_emplace: "map_keys (map_emplace lt k v m) = insert k (map_keys m)"
proof (cases "map_find k m")
  case None
  then show ?thesis by (simp add: map_emplace_def map_keys_insert_sorted)
next
  case (Some w)
  then have "k \<in> map_keys m" by (rule map_find_Some_key)
  with Some show ?thesis by (simp add: map_emplace_def insert_absorb)
qed

lemma map_keys_assign: "map_keys (map_assign lt k v m) = insert k (map_keys m)"
proof (cases "map_find k m")
  case None
  then show ?thesis by (simp add: map_assign_def map_keys_insert_sorted)
next
  case (Some w)
  then have "k \<in> map_keys m" by (rule map_find_Some_key)
  with Some show ?thesis by (simp add: map_assign_def map_keys_overwrite insert_absorb)
qed

lemma map_find_insert_sorted:
  "map_find k m = None \<Longrightarrow> map_find k' (map_insert_sorted lt k v m) = (if k' = k then Some v else map_find k' m)"
proof (induction m)
  case Nil
  show ?case by simp
next
  case (Cons e m)
  obtain k'' v'' where e: "e = (k'', v'')" by (cases e)
  from Cons.prems e have "k \<noteq> k''" and "map_find k m = None" by (simp_all split: if_splits)
  with Cons.IH show ?case by (cases "k' = k") (simp_all add: e)
qed

lemma map_emplace_present: "map_find k m \<noteq> None \<Longrightarrow> map_emplace lt k v m = m"
  by (auto simp: map_emplace_def)

lemma map_find_emplace_absent: "map_find k m = None \<Longrightarrow> map_find k (map_emplace lt k v m) = Some v"
  by (simp add: map_emplace_def map_find_insert_sorted)

lemma map_find_emplace_other: "k' \<noteq> k \<Longrightarrow> map_find k' (map_emplace lt k v m) = map_find k' m"
  by (simp add: map_emplace_def map_find_insert_sorted split: option.splits)

lemma enqueue_fields [simp]:
  "m_internalDispatch (snd (enqueueFunctionForCodeGeneration ast c p)) = m_internalDispatch c"
  "m_internalDispatchCandidates (snd (enqueueFunctionForCodeGeneration ast c p)) = m_internalDispatchCandidates c"
  "m_dispatchableInternalFunctionReferences (snd (enqueueFunctionForCodeGeneration ast c p)) = m_dispatchableInternalFunctionReferences c"
  "m_functions (snd (enqueueFunctionForCodeGeneration ast c p)) = m_functions c"
  by (simp_all add: enqueueFunctionForCodeGeneration_def Let_def)

lemma enqueueAll_fields [simp]:
  "m_internalDispatch (enqueueAll ast ps c) = m_internalDispatch c"
  "m_internalDispatchCandidates (enqueueAll ast ps c) = m_internalDispatchCandidates c"
  "m_dispatchableInternalFunctionReferences (enqueueAll ast ps c) = m_dispatchableInternalFunctionReferences c"
  by (induction ps arbitrary: c) simp_all

lemma promoteCandidates_keys:
  "promoteCandidates ast d c = Inr (d', c') \<Longrightarrow>
     map_keys d' = map_keys d \<and>
     map_keys (m_internalDispatchCandidates c') \<subseteq> map_keys (m_internalDispatchCandidates c) \<and>
     map_keys (m_internalDispatchCandidates c') \<inter> map_keys d = {} \<and>
     m_dispatchableInternalFunctionReferences c' = m_dispatchableInternalFunctionReferences c"
proof (induction ast d c arbitrary: d' c' rule: promoteCandidates.induct)
  case (1 ast c)
  then show ?case by simp
next
  case (2 ast a fs rest c)
  show ?case
  proof (cases "map_find a (m_internalDispatchCandidates c)")
    case None
    with "2.prems" obtain d0 where
      rec: "promoteCandidates ast rest c = Inr (d0, c')" and d': "d' = (a, fs) # d0"
      by (auto split: sum.splits)
    from "2.IH"(1) [OF None rec] None d' show ?thesis
      by (auto simp: map_find_None_iff)
  next
    case (Some cs)
    let ?c2 = "(enqueueAll ast cs c)\<lparr>m_internalDispatchCandidates :=
        map_erase a (m_internalDispatchCandidates (enqueueAll ast cs c))\<rparr>"
    from "2.prems" Some have fs: "\<not> fs \<noteq> []" by (auto split: if_splits)
    with "2.prems" Some obtain d0 where
      rec: "promoteCandidates ast rest ?c2 = Inr (d0, c')" and d': "d' = (a, cs) # d0"
      by (auto simp: Let_def split: sum.splits)
    have "map_keys d0 = map_keys rest \<and>
      map_keys (m_internalDispatchCandidates c') \<subseteq> map_keys (m_internalDispatchCandidates ?c2) \<and>
      map_keys (m_internalDispatchCandidates c') \<inter> map_keys rest = {} \<and>
      m_dispatchableInternalFunctionReferences c' = m_dispatchableInternalFunctionReferences ?c2"
      using "2.IH"(2) [OF Some fs refl refl rec] .
    moreover have "map_keys (m_internalDispatchCandidates ?c2) = map_keys (m_internalDispatchCandidates c) - {a}"
      by (simp add: map_keys_erase)
    moreover have "m_dispatchableInternalFunctionReferences ?c2 = m_dispatchableInternalFunctionReferences c"
      by simp
    ultimately show ?thesis using d'
      by auto
  qed
qed


lemma resolveReferences_disjoint:
  "resolveReferences ast rs c = Inr c' \<Longrightarrow>
   map_keys (m_internalDispatch c) \<inter> map_keys (m_internalDispatchCandidates c) = {} \<Longrightarrow>
   map_keys (m_internalDispatch c') \<inter> map_keys (m_internalDispatchCandidates c') = {}"
proof (induction rs arbitrary: c)
  case Nil
  then show ?case by simp
next
  case (Cons r rs)
  obtain e p where r: "r = (e, p)" by (cases r)
  let ?goal = "map_keys (m_internalDispatch c') \<inter> map_keys (m_internalDispatchCandidates c') = {}"
  have step: "\<And>c1. resolveReferences ast rs c1 = Inr c' \<Longrightarrow>
      map_keys (m_internalDispatch c1) \<inter> map_keys (m_internalDispatchCandidates c1) = {} \<Longrightarrow> ?goal"
    by (rule Cons.IH)
  from Cons.prems(1) r have p: "p \<noteq> 0" by (auto split: if_splits)
  with Cons.prems(1) r obtain arity where ar: "functionArity (ast p) = Inr arity"
    by (auto split: sum.splits)
  show ?case
  proof (cases "map_find arity (m_internalDispatch c)")
    case None
    note d = None
    show ?thesis
    proof (cases "map_find arity (m_internalDispatchCandidates c)")
      case None
      let ?c1 = "c\<lparr>m_internalDispatchCandidates :=
                    map_assign arity_less arity [p] (m_internalDispatchCandidates c)\<rparr>"
      from Cons.prems(1) r p ar d None have rec: "resolveReferences ast rs ?c1 = Inr c'"
        by simp
      have "map_keys (m_internalDispatch ?c1) \<inter> map_keys (m_internalDispatchCandidates ?c1) = {}"
        using Cons.prems(2) d by (auto simp: map_keys_assign map_find_None_iff)
      with rec show ?thesis by (rule step)
    next
      case (Some cs)
      let ?c1 = "c\<lparr>m_internalDispatchCandidates :=
                    map_assign arity_less arity (set_insert p cs) (m_internalDispatchCandidates c)\<rparr>"
      from Cons.prems(1) r p ar d Some have rec: "resolveReferences ast rs ?c1 = Inr c'"
        by simp
      have "map_keys (m_internalDispatch ?c1) \<inter> map_keys (m_internalDispatchCandidates ?c1) = {}"
        using Cons.prems(2) d by (auto simp: map_keys_assign map_find_None_iff)
      with rec show ?thesis by (rule step)
    qed
  next
    case (Some fs)
    note d = Some
    show ?thesis
    proof (cases "map_find arity (m_internalDispatchCandidates c)")
      case None
      let ?c1 = "snd (enqueueFunctionForCodeGeneration ast
                      (c\<lparr>m_internalDispatch :=
                           map_assign arity_less arity (set_insert p fs) (m_internalDispatch c)\<rparr>) p)"
      from Cons.prems(1) r p ar d None have rec: "resolveReferences ast rs ?c1 = Inr c'"
        by simp
      have "map_keys (m_internalDispatch ?c1) \<inter> map_keys (m_internalDispatchCandidates ?c1) = {}"
        using Cons.prems(2) None by (auto simp: map_keys_assign map_find_None_iff)
      with rec show ?thesis by (rule step)
    next
      case (Some cs)
      with Cons.prems(1) r p ar d show ?thesis by simp
    qed
  qed
qed

text \<open>
  Claim C1. After every completed run of \<open>moveCollectedReferencesToDispatch\<close>, no arity
  is a key of both the internal dispatch map and the internal dispatch candidates map, and
  the table of pending references is empty.
\<close>

theorem moveCollectedReferencesToDispatch_partition:
  assumes "moveCollectedReferencesToDispatch ast c = Inr c'"
  shows "(\<forall>arity. \<not> (arity \<in> map_keys (m_internalDispatch c') \<and>
                      arity \<in> map_keys (m_internalDispatchCandidates c'))) \<and>
         m_dispatchableInternalFunctionReferences c' = []"
proof -
  from assms obtain d c1 c2 where
    p1: "promoteCandidates ast (m_internalDispatch c) c = Inr (d, c1)" and
    p2: "resolveReferences ast (m_dispatchableInternalFunctionReferences c1)
           (c1\<lparr>m_internalDispatch := d\<rparr>) = Inr c2" and
    c': "c' = c2\<lparr>m_dispatchableInternalFunctionReferences := []\<rparr>"
    by (auto simp: moveCollectedReferencesToDispatch_def split: sum.splits)
  from promoteCandidates_keys [OF p1]
  have "map_keys (m_internalDispatch (c1\<lparr>m_internalDispatch := d\<rparr>)) \<inter>
        map_keys (m_internalDispatchCandidates (c1\<lparr>m_internalDispatch := d\<rparr>)) = {}"
    by auto
  with p2 have "map_keys (m_internalDispatch c2) \<inter> map_keys (m_internalDispatchCandidates c2) = {}"
    by (rule resolveReferences_disjoint)
  with c' show ?thesis by auto
qed

text \<open>
  A completed run: one registered arity with a candidate, and two pending references, one
  of the registered arity and one of another.
\<close>

theorem moveCollectedReferencesToDispatch_partition_witness:
  "moveCollectedReferencesToDispatch example_ast example_pending = Inr example_promoted \<and>
   map_keys (m_internalDispatch example_promoted) \<inter>
     map_keys (m_internalDispatchCandidates example_promoted) = {} \<and>
   m_dispatchableInternalFunctionReferences example_promoted = []"
proof -
  have run: "moveCollectedReferencesToDispatch example_ast example_pending = Inr example_promoted"
    by (simp add: moveCollectedReferencesToDispatch_def example_pending_def example_promoted_def
        initialContext_def example_ast_def functionArity_def enqueueFunctionForCodeGeneration_def
        contains_def set_insert_def map_assign_def)
  from moveCollectedReferencesToDispatch_partition [OF run] run show ?thesis
    by auto
qed

lemma enqueue_sorted:
  "sorted_wrt (<) (m_functionGenerationQueue c) \<Longrightarrow>
   sorted_wrt (<) (m_functionGenerationQueue (snd (enqueueFunctionForCodeGeneration ast c p)))"
  by (simp add: enqueueFunctionForCodeGeneration_def Let_def sorted_set_insert)

lemma enqueueAll_sorted:
  "sorted_wrt (<) (m_functionGenerationQueue c) \<Longrightarrow>
   sorted_wrt (<) (m_functionGenerationQueue (enqueueAll ast ps c))"
  by (induction ps arbitrary: c) (simp_all add: enqueue_sorted)

text \<open>
  Claim C2 as stated fails: the queue is a \<open>std::set\<close> of pointers, ordered by address.
  With the function of id 7 at address 16 and the function of id 3 at address 32 both
  queued, the dequeued function is the one at address 16, of id 7, although a function
  of lower id is queued.
\<close>

theorem dequeue_lowest_identity_counterexample:
  "dequeueFunctionForCodeGeneration example_queued =
     Inr (16, example_queued\<lparr>m_functionGenerationQueue := [32]\<rparr>) \<and>
   32 \<in> set (m_functionGenerationQueue example_queued) \<and>
   fd_id (example_ast 32) < fd_id (example_ast 16)"
  by (simp add: dequeueFunctionForCodeGeneration_def example_queued_def initialContext_def
      example_ast_def enqueueFunctionForCodeGeneration_def contains_def set_insert_def)

text \<open>
  Claim C2, amended. \<open>dequeueFunctionForCodeGeneration\<close> fails with an internal
  compiler error when the queue is empty; otherwise it removes and returns the first
  element of the queue in the set's own order, the one at the lowest address, leaves the
  rest of the context alone, and every function still queued lies at a higher address,
  so repeated dequeues return the queued functions by ascending address.
\<close>

theorem dequeue_first_in_address_order:
  "(m_functionGenerationQueue c = [] \<longrightarrow>
      dequeueFunctionForCodeGeneration c = Inl InternalCompilerError) \<and>
   (m_functionGenerationQueue c \<noteq> [] \<longrightarrow> sorted_wrt (<) (m_functionGenerationQueue c) \<longrightarrow>
      (\<exists>p c'. dequeueFunctionForCodeGeneration c = Inr (p, c') \<and>
         p \<in> set (m_functionGenerationQueue c) \<and>
         (\<forall>q \<in> set (m_functionGenerationQueue c). p \<le> q) \<and>
         c' = c\<lparr>m_functionGenerationQueue := m_functionGenerationQueue c'\<rparr> \<and>
         set (m_functionGenerationQueue c') = set (m_functionGenerationQueue c) - {p} \<and>
         sorted_wrt (<) (m_functionGenerationQueue c') \<and>
         (\<forall>q \<in> set (m_functionGenerationQueue c'). p < q)))"
proof (cases "m_functionGenerationQueue c")
  case Nil
  then show ?thesis by (simp add: dequeueFunctionForCodeGeneration_def)
next
  case (Cons p ps)
  then show ?thesis
    by (auto simp: dequeueFunctionForCodeGeneration_def)
qed

text \<open>
  The amended claim at the queue holding addresses 16 and 32, and at the empty queue.
\<close>

theorem dequeue_first_in_address_order_witness:
  "m_functionGenerationQueue example_queued \<noteq> [] \<and>
   sorted_wrt (<) (m_functionGenerationQueue example_queued) \<and>
   dequeueFunctionForCodeGeneration example_queued =
     Inr (16, example_queued\<lparr>m_functionGenerationQueue := [32]\<rparr>) \<and>
   dequeueFunctionForCodeGeneration initialContext = Inl InternalCompilerError"
  using dequeue_first_in_address_order [of example_queued]
    dequeue_first_in_address_order [of initialContext]
  by (simp add: dequeueFunctionForCodeGeneration_def example_queued_def initialContext_def
      example_ast_def enqueueFunctionForCodeGeneration_def contains_def set_insert_def)

text \<open>
  Claim C3. Functions of distinct ids get distinct names from
  \<open>enqueueFunctionForCodeGeneration\<close>, whatever their declared names and the contexts;
  a second call for the same function returns the same name and leaves the context as
  the first call left it; and a function that occurred at most once in the queue before
  occurs at most once after both calls.
\<close>

theorem enqueue_naming:
  "(fd_id (ast p) \<noteq> fd_id (ast q) \<longrightarrow>
      fst (enqueueFunctionForCodeGeneration ast c p) \<noteq>
      fst (enqueueFunctionForCodeGeneration ast c' q)) \<and>
   fst (enqueueFunctionForCodeGeneration ast (snd (enqueueFunctionForCodeGeneration ast c p)) p) =
     fst (enqueueFunctionForCodeGeneration ast c p) \<and>
   snd (enqueueFunctionForCodeGeneration ast (snd (enqueueFunctionForCodeGeneration ast c p)) p) =
     snd (enqueueFunctionForCodeGeneration ast c p) \<and>
   (count_list (m_functionGenerationQueue c) p \<le> 1 \<longrightarrow>
      count_list (m_functionGenerationQueue
        (snd (enqueueFunctionForCodeGeneration ast (snd (enqueueFunctionForCodeGeneration ast c p)) p))) p \<le> 1)"
proof -
  have names: "\<And>c p. fst (enqueueFunctionForCodeGeneration ast c p) = functionName (ast p)"
    by (simp add: enqueueFunctionForCodeGeneration_def Let_def)
  have distinct: "fd_id (ast p) \<noteq> fd_id (ast q) \<longrightarrow>
      fst (enqueueFunctionForCodeGeneration ast c p) \<noteq> fst (enqueueFunctionForCodeGeneration ast c' q)"
    using functionName_inj [of "ast p" "ast q"] by (auto simp: names)
  have again: "snd (enqueueFunctionForCodeGeneration ast (snd (enqueueFunctionForCodeGeneration ast c p)) p) =
     snd (enqueueFunctionForCodeGeneration ast c p)"
    by (simp add: enqueueFunctionForCodeGeneration_def Let_def set_insert_idem)
  have once: "count_list (m_functionGenerationQueue c) p \<le> 1 \<longrightarrow>
      count_list (m_functionGenerationQueue (snd (enqueueFunctionForCodeGeneration ast c p))) p \<le> 1"
    using count_set_insert [of "m_functionGenerationQueue c" p]
    by (simp add: enqueueFunctionForCodeGeneration_def Let_def)
  from distinct again once show ?thesis by (simp add: names)
qed

text \<open>
  Two functions of ids 7 and 3, and a function enqueued twice into the empty queue.
\<close>

theorem enqueue_naming_witness:
  "fd_id (example_ast 16) \<noteq> fd_id (example_ast 32) \<and>
   fst (enqueueFunctionForCodeGeneration example_ast initialContext 16) = ''fun_g_7'' \<and>
   fst (enqueueFunctionForCodeGeneration example_ast initialContext 32) = ''fun_f_3'' \<and>
   count_list (m_functionGenerationQueue initialContext) 16 \<le> 1 \<and>
   m_functionGenerationQueue
     (snd (enqueueFunctionForCodeGeneration example_ast
        (snd (enqueueFunctionForCodeGeneration example_ast initialContext 16)) 16)) = [16]"
  using enqueue_naming [of example_ast 16 32 initialContext initialContext]
  by (simp add: initialContext_def example_ast_def enqueueFunctionForCodeGeneration_def
      contains_def set_insert_def functionName_def to_string_def to_string_nat.simps digit_char_def)

text \<open>
  Claim C4. \<open>registerInternalDispatch\<close> returns the name
  \<open>dispatch_internal_in_<in>_out_<out>\<close>; afterwards the arity has an entry in the
  dispatch map, the empty set when there was none and the old set otherwise; a context
  that already had the entry is unchanged; the entries of the other arities are
  untouched; and a second call for the same arity returns the same name and context.
\<close>

theorem registerInternalDispatch_idempotent:
  "fst (registerInternalDispatch c a) =
     ''dispatch_internal_in_'' @ to_string (int (arity_in a)) @ ''_out_'' @ to_string (int (arity_out a)) \<and>
   map_find a (m_internalDispatch (snd (registerInternalDispatch c a))) =
     (case map_find a (m_internalDispatch c) of None \<Rightarrow> Some [] | Some fs \<Rightarrow> Some fs) \<and>
   (map_find a (m_internalDispatch c) \<noteq> None \<longrightarrow> snd (registerInternalDispatch c a) = c) \<and>
   (\<forall>b. b \<noteq> a \<longrightarrow>
      map_find b (m_internalDispatch (snd (registerInternalDispatch c a))) =
      map_find b (m_internalDispatch c)) \<and>
   registerInternalDispatch (snd (registerInternalDispatch c a)) a = registerInternalDispatch c a"
proof -
  let ?c' = "snd (registerInternalDispatch c a)"
  have name: "fst (registerInternalDispatch c a) =
     ''dispatch_internal_in_'' @ to_string (int (arity_in a)) @ ''_out_'' @ to_string (int (arity_out a))"
    by (simp add: registerInternalDispatch_def internalDispatchFunctionName_def)
  have entry: "map_find a (m_internalDispatch ?c') =
     (case map_find a (m_internalDispatch c) of None \<Rightarrow> Some [] | Some fs \<Rightarrow> Some fs)"
    by (simp add: registerInternalDispatch_def map_emplace_def map_find_insert_sorted
        split: option.splits)
  have present: "map_find a (m_internalDispatch c) \<noteq> None \<longrightarrow> ?c' = c"
    by (auto simp: registerInternalDispatch_def map_emplace_def)
  have others: "\<forall>b. b \<noteq> a \<longrightarrow> map_find b (m_internalDispatch ?c') = map_find b (m_internalDispatch c)"
    by (simp add: registerInternalDispatch_def map_find_emplace_other)
  from entry have "map_find a (m_internalDispatch ?c') \<noteq> None"
    by (simp split: option.splits)
  then have "map_emplace arity_less a [] (m_internalDispatch ?c') = m_internalDispatch ?c'"
    by (rule map_emplace_present)
  then have twice: "registerInternalDispatch ?c' a = registerInternalDispatch c a"
    by (simp add: registerInternalDispatch_def)
  from name entry present others twice show ?thesis by blast
qed

text \<open>
  Registration of a new arity and of one already present.
\<close>

theorem registerInternalDispatch_idempotent_witness:
  "map_find \<lparr>arity_in = 2, arity_out = 1\<rparr> (m_internalDispatch example_promoted) = None \<and>
   registerInternalDispatch example_promoted \<lparr>arity_in = 2, arity_out = 1\<rparr> =
     (''dispatch_internal_in_2_out_1'',
      example_promoted\<lparr>m_internalDispatch :=
        [(\<lparr>arity_in = 1, arity_out = 1\<rparr>, [16, 32]), (\<lparr>arity_in = 2, arity_out = 1\<rparr>, [])]\<rparr>) \<and>
   map_find \<lparr>arity_in = 1, arity_out = 1\<rparr> (m_internalDispatch example_promoted) \<noteq> None \<and>
   registerInternalDispatch example_promoted \<lparr>arity_in = 1, arity_out = 1\<rparr> =
     (''dispatch_internal_in_1_out_1'', example_promoted)"
  using registerInternalDispatch_idempotent [of example_promoted "\<lparr>arity_in = 2, arity_out = 1\<rparr>"]
    registerInternalDispatch_idempotent [of example_promoted "\<lparr>arity_in = 1, arity_out = 1\<rparr>"]
  by (simp add: registerInternalDispatch_def example_promoted_def initialContext_def
      internalDispatchFunctionName_def map_emplace_def arity_less_def
      to_string_def to_string_nat.simps digit_char_def)

lemma dispatchCases_ok:
  "\<forall>p \<in> set fs. p \<noteq> 0 \<and> fd_callable (ast p) = Some arity \<and>
       \<not> fd_isConstructor (ast p) \<and> fd_id (ast p) \<noteq> 0 \<Longrightarrow>
   dispatchCases ast arity fs =
     Inr (map (\<lambda>p. \<lparr>funID = to_string (fd_id (ast p)), name = functionName (ast p)\<rparr>) fs)"
  by (induction fs) (simp_all add: functionArity_def)

lemma dispatchCases_fail:
  "\<not> (\<forall>p \<in> set fs. p \<noteq> 0 \<and> fd_callable (ast p) = Some arity \<and>
       \<not> fd_isConstructor (ast p) \<and> fd_id (ast p) \<noteq> 0) \<Longrightarrow>
   dispatchCases ast arity fs = Inl InternalCompilerError"
proof (induction fs)
  case Nil
  then show ?case by simp
next
  case (Cons p ps)
  show ?case
  proof (cases "p \<noteq> 0 \<and> fd_callable (ast p) = Some arity \<and>
       \<not> fd_isConstructor (ast p) \<and> fd_id (ast p) \<noteq> 0")
    case True
    with Cons.prems have "\<not> (\<forall>p \<in> set ps. p \<noteq> 0 \<and> fd_callable (ast p) = Some arity \<and>
       \<not> fd_isConstructor (ast p) \<and> fd_id (ast p) \<noteq> 0)" by simp
    then have "dispatchCases ast arity ps = Inl InternalCompilerError" by (rule Cons.IH)
    with True show ?thesis by (simp add: functionArity_def)
  next
    case False
    then show ?thesis by (auto simp: functionArity_def split: option.splits)
  qed
qed

text \<open>
  Claim C5. When every function of the set is a non-null pointer to a function of the
  given arity that is not a constructor and has a non-zero id, \<open>internalDispatch\<close>
  returns the dispatcher name and, unless a function of that name was generated before,
  records one function whose body is a switch with one case per function of the set, the
  case of function id forwarding to the generated name of that function, followed by the
  default case \<open>invalid()\<close>; otherwise it fails with an internal compiler error. For the
  empty set the switch holds the default case alone.
\<close>

theorem internalDispatch_synthesis:
  "(if \<forall>p \<in> set functions. p \<noteq> 0 \<and> fd_callable (ast p) = Some arity \<and>
         \<not> fd_isConstructor (ast p) \<and> fd_id (ast p) \<noteq> 0
    then internalDispatch ast c arity functions =
      Inr (internalDispatchFunctionName arity,
           c\<lparr>m_functions :=
              (if contains (m_functions c) (internalDispatchFunctionName arity) then m_functions c
               else (m_functions c)(internalDispatchFunctionName arity \<mapsto>
                 indent 3 @ ''function '' @ internalDispatchFunctionName arity @ ''(fun '' @
                   (if arity_in arity > 0 then '','' else '''') @ '' '' @
                   suffixedVariableNameList ''in_'' 0 (arity_in arity) @ '') '' @
                   (if arity_out arity > 0 then ''->'' else '''') @ '' '' @
                   suffixedVariableNameList ''out_'' 0 (arity_out arity) @ '' {'' @
                 indent 4 @ ''switch fun'' @
                 indent 4 @
                 concat (map (\<lambda>p.
                   indent 4 @ ''case '' @ to_string (fd_id (ast p)) @
                   indent 4 @ ''{'' @
                   indent 5 @ suffixedVariableNameList ''out_'' 0 (arity_out arity) @ '' '' @
                     (if arity_out arity > 0 then '':='' else '''') @ '' '' @
                     functionName (ast p) @
                     ''('' @ suffixedVariableNameList ''in_'' 0 (arity_in arity) @ '')'' @
                   indent 4 @ ''}'' @
                   indent 4) functions) @
                 indent 4 @ ''default { invalid() }'' @
                 indent 3 @ ''}'' @
                 indent 2))\<rparr>)
    else internalDispatch ast c arity functions = Inl InternalCompilerError) \<and>
   internalDispatch ast c arity [] =
      Inr (internalDispatchFunctionName arity,
           c\<lparr>m_functions :=
              (if contains (m_functions c) (internalDispatchFunctionName arity) then m_functions c
               else (m_functions c)(internalDispatchFunctionName arity \<mapsto>
                 indent 3 @ ''function '' @ internalDispatchFunctionName arity @ ''(fun '' @
                   (if arity_in arity > 0 then '','' else '''') @ '' '' @
                   suffixedVariableNameList ''in_'' 0 (arity_in arity) @ '') '' @
                   (if arity_out arity > 0 then ''->'' else '''') @ '' '' @
                   suffixedVariableNameList ''out_'' 0 (arity_out arity) @ '' {'' @
                 indent 4 @ ''switch fun'' @
                 indent 4 @
                 indent 4 @ ''default { invalid() }'' @
                 indent 3 @ ''}'' @
                 indent 2))\<rparr>)"
proof -
  let ?good = "\<forall>p \<in> set functions. p \<noteq> 0 \<and> fd_callable (ast p) = Some arity \<and>
         \<not> fd_isConstructor (ast p) \<and> fd_id (ast p) \<noteq> 0"
  have empty: "dispatchCases ast arity [] = Inr []" by simp
  show ?thesis
  proof (cases ?good)
    case True
    then have "dispatchCases ast arity functions =
      Inr (map (\<lambda>p. \<lparr>funID = to_string (fd_id (ast p)), name = functionName (ast p)\<rparr>) functions)"
      by (rule dispatchCases_ok)
    with True empty show ?thesis
      by (simp add: internalDispatch_def createFunction_def renderDispatch_def renderCase_def
          comp_def Let_def)
  next
    case False
    then have "dispatchCases ast arity functions = Inl InternalCompilerError"
      by (rule dispatchCases_fail)
    with False empty show ?thesis
      by (simp add: internalDispatch_def createFunction_def renderDispatch_def Let_def)
  qed
qed

text \<open>
  The dispatcher of arity (1, 1) for the functions of ids 7 and 3, and the failure for a
  set holding a function of another arity.
\<close>

theorem internalDispatch_synthesis_witness:
  "fst (projr (internalDispatch example_ast initialContext \<lparr>arity_in = 1, arity_out = 1\<rparr> [16, 32])) =
     ''dispatch_internal_in_1_out_1'' \<and>
   m_functions (snd (projr (internalDispatch example_ast initialContext
       \<lparr>arity_in = 1, arity_out = 1\<rparr> [16, 32]))) ''dispatch_internal_in_1_out_1'' =
     Some (indent 3 @ ''function dispatch_internal_in_1_out_1(fun , in_0) -> out_0 {'' @
           indent 4 @ ''switch fun'' @
           indent 4 @
           indent 4 @ ''case 7'' @
           indent 4 @ ''{'' @
           indent 5 @ ''out_0 := fun_g_7(in_0)'' @
           indent 4 @ ''}'' @
           indent 4 @
           indent 4 @ ''case 3'' @
           indent 4 @ ''{'' @
           indent 5 @ ''out_0 := fun_f_3(in_0)'' @
           indent 4 @ ''}'' @
           indent 4 @
           indent 4 @ ''default { invalid() }'' @
           indent 3 @ ''}'' @
           indent 2) \<and>
   internalDispatch example_ast initialContext \<lparr>arity_in = 1, arity_out = 1\<rparr> [16, 48] =
     Inl InternalCompilerError"
  using internalDispatch_synthesis [of "[16, 32]" example_ast "\<lparr>arity_in = 1, arity_out = 1\<rparr>" initialContext]
    internalDispatch_synthesis [of "[16, 48]" example_ast "\<lparr>arity_in = 1, arity_out = 1\<rparr>" initialContext]
  by (simp add: example_ast_def initialContext_def contains_def internalDispatchFunctionName_def
      suffixedVariableNameList_def functionName_def to_string_def to_string_nat.simps
      digit_char_def upt_rec [of 0])

text \<open>
  Claim C6. In a context whose reserved memory stands at 0, registering two distinct
  immutable variables of value type and head size 32 gives them the offsets \<open>base\<close> and
  \<open>base + 32\<close>, the cursor going to 32 and 64; \<open>reservedMemory\<close> then returns 64 and
  closes the reservation; after that a second \<open>reservedMemory\<close> fails and so does every
  \<open>registerImmutableVariable\<close>.
\<close>

theorem immutable_offsets:
  assumes "m_reservedMemory c = Some 0" and "v1 \<noteq> v2"
    and "vd_immutable (vars v1)" and "vd_isValueType (vars v1)" and "vd_memoryHeadSize (vars v1) = 32"
    and "vd_immutable (vars v2)" and "vd_isValueType (vars v2)" and "vd_memoryHeadSize (vars v2) = 32"
  shows "\<exists>c1 c2 c3.
     registerImmutableVariable base vars c v1 = Inr c1 \<and>
     immutableMemoryOffset c1 v1 = Inr base \<and>
     m_reservedMemory c1 = Some 32 \<and>
     registerImmutableVariable base vars c1 v2 = Inr c2 \<and>
     immutableMemoryOffset c2 v1 = Inr base \<and>
     immutableMemoryOffset c2 v2 = Inr (base + 32) \<and>
     m_reservedMemory c2 = Some 64 \<and>
     reservedMemory c2 = Inr (64, c3) \<and>
     m_reservedMemory c3 = None \<and>
     reservedMemory c3 = Inl InternalCompilerError \<and>
     registerImmutableVariable base vars c3 v1 = Inl InternalCompilerError \<and>
     (\<forall>v. isl (registerImmutableVariable base vars c3 v))"
proof -
  let ?c1 = "c\<lparr>m_immutableVariables := (m_immutableVariables c)(v1 \<mapsto> base),
                m_reservedMemory := Some 32\<rparr>"
  let ?c2 = "?c1\<lparr>m_immutableVariables := (m_immutableVariables ?c1)(v2 \<mapsto> base + 32),
                  m_reservedMemory := Some 64\<rparr>"
  let ?c3 = "?c2\<lparr>m_reservedMemory := None\<rparr>"
  have r1: "registerImmutableVariable base vars c v1 = Inr ?c1"
    using assms by (simp add: registerImmutableVariable_def)
  have r2: "registerImmutableVariable base vars ?c1 v2 = Inr ?c2"
    using assms by (simp add: registerImmutableVariable_def)
  have o1: "immutableMemoryOffset ?c1 v1 = Inr base"
    by (simp add: immutableMemoryOffset_def)
  have o2: "immutableMemoryOffset ?c2 v1 = Inr base \<and> immutableMemoryOffset ?c2 v2 = Inr (base + 32)"
    using assms(2) by (simp add: immutableMemoryOffset_def)
  have m: "reservedMemory ?c2 = Inr (64, ?c3)"
    by (simp add: reservedMemory_def)
  have again: "reservedMemory ?c3 = Inl InternalCompilerError"
    by (simp add: reservedMemory_def)
  have closed: "registerImmutableVariable base vars ?c3 v1 = Inl InternalCompilerError"
    using assms by (simp add: registerImmutableVariable_def)
  have closed_all: "\<forall>v. isl (registerImmutableVariable base vars ?c3 v)"
    by (simp add: registerImmutableVariable_def)
  from r1 r2 o1 o2 m again closed closed_all show ?thesis
    by (intro exI [of _ ?c1] exI [of _ ?c2] exI [of _ ?c3]) simp
qed

text \<open>
  The fresh context with \<open>base = 128\<close> and variables at addresses 1000 and 2000.
\<close>

theorem immutable_offsets_witness:
  "m_reservedMemory initialContext = Some 0 \<and> (1000::nat) \<noteq> 2000 \<and>
   vd_immutable (example_vars 1000) \<and> vd_isValueType (example_vars 1000) \<and>
   vd_memoryHeadSize (example_vars 1000) = 32 \<and>
   immutableMemoryOffset
     (projr (registerImmutableVariable 128 example_vars
        (projr (registerImmutableVariable 128 example_vars initialContext 1000)) 2000)) 2000 = Inr 160 \<and>
   fst (projr (reservedMemory
     (projr (registerImmutableVariable 128 example_vars
        (projr (registerImmutableVariable 128 example_vars initialContext 1000)) 2000)))) = 64"
  using immutable_offsets [of initialContext 1000 2000 example_vars 128]
  by (simp add: initialContext_def example_vars_def registerImmutableVariable_def
      immutableMemoryOffset_def reservedMemory_def)

text \<open>
  Claim C10. \<open>setInternalDispatchCandidates\<close> fails with an internal compiler error
  unless the dispatch map, the candidates map and the table of pending references are all
  empty; when they are, it succeeds and the supplied map becomes the candidates map, the
  rest of the context unchanged.
\<close>

theorem setInternalDispatchCandidates_clean:
  "internalDispatchClean c =
     (m_internalDispatch c = [] \<and> m_internalDispatchCandidates c = [] \<and>
      m_dispatchableInternalFunctionReferences c = []) \<and>
   (\<not> internalDispatchClean c \<longrightarrow>
      setInternalDispatchCandidates c candidates = Inl InternalCompilerError) \<and>
   (internalDispatchClean c \<longrightarrow>
      setInternalDispatchCandidates c candidates =
        Inr (c\<lparr>m_internalDispatchCandidates := candidates\<rparr>))"
  by (simp add: setInternalDispatchCandidates_def internalDispatchClean_def)

text \<open>
  The fresh context, which is clean, and a context with a registered arity, which is not.
\<close>

theorem setInternalDispatchCandidates_clean_witness:
  "internalDispatchClean initialContext \<and>
   m_internalDispatchCandidates
     (projr (setInternalDispatchCandidates initialContext [(\<lparr>arity_in = 0, arity_out = 2\<rparr>, [48])])) =
     [(\<lparr>arity_in = 0, arity_out = 2\<rparr>, [48])] \<and>
   \<not> internalDispatchClean example_promoted \<and>
   setInternalDispatchCandidates example_promoted [] = Inl InternalCompilerError"
  using setInternalDispatchCandidates_clean [of initialContext "[(\<lparr>arity_in = 0, arity_out = 2\<rparr>, [48])]"]
    setInternalDispatchCandidates_clean [of example_promoted "[]"]
  by (simp add: internalDispatchClean_def initialContext_def example_promoted_def)

lemma newVariable_eq:
  "newVariable s =
     (Var (''expr_'' @ to_string (int (m_varCounter s))),
      s\<lparr>m_varCounter := m_varCounter s + 1,
        m_solver := (m_solver s)\<lparr>declared :=
          (''expr_'' @ to_string (int (m_varCounter s))) # declared (m_solver s)\<rparr>\<rparr>)"
  by (simp add: newVariable_def uniqueName_def solver_newVariable_def)

lemma same_scopes_refl [simp]: "same_scopes s s"
  by (simp add: same_scopes_def)

lemma same_scopes_trans: "same_scopes s s1 \<Longrightarrow> same_scopes s1 s2 \<Longrightarrow> same_scopes s s2"
  by (simp add: same_scopes_def)

lemma same_scopes_newVariable: "newVariable s = (v, s') \<Longrightarrow> same_scopes s s'"
  by (auto simp: same_scopes_def newVariable_eq)

lemma encodeInstruction_scopes:
  "encodeInstruction i vs s = Inr (v, s') \<Longrightarrow> same_scopes s s'"
  by (cases i) (auto simp: encodeInstruction_def split: sum.splits dest: same_scopes_newVariable)

lemma encode_scopes:
  shows "encodeExpression d ssa e s = Inr (v, s') \<Longrightarrow> same_scopes s s'"
    and "encodeBuiltin d ssa i es s = Inr (v, s') \<Longrightarrow> same_scopes s s'"
    and "encodeArguments d ssa es s = Inr (vs, s') \<Longrightarrow> same_scopes s s'"
proof (induction d ssa e s and d ssa i es s and d ssa es s
    arbitrary: v s' and v s' and vs s'
    rule: encodeExpression_encodeBuiltin_encodeArguments.induct)
  case (1 dialect ssa fname arguments s)
  then show ?case
    by (auto split: Dialect.splits option.splits dest: same_scopes_newVariable)
next
  case (2 dialect ssa x s)
  then show ?case
    by (auto split: if_splits option.splits dest: same_scopes_newVariable)
next
  case (3 dialect ssa kind lit s)
  then show ?case by auto
next
  case (4 dialect ssa instruction arguments s)
  from "4.prems" obtain encoded s1 where
    a: "encodeArguments dialect ssa arguments s = Inr (encoded, s1)" and
    b: "encodeInstruction instruction encoded s1 = Inr (v, s')"
    by (auto split: sum.splits)
  from "4.IH" [OF a] encodeInstruction_scopes [OF b] show ?case
    by (rule same_scopes_trans)
next
  case (5 dialect ssa s)
  then show ?case by auto
next
  case (6 dialect ssa e es s)
  from "6.prems" obtain w s1 ws where
    a: "encodeExpression dialect ssa e s = Inr (w, s1)" and
    b: "encodeArguments dialect ssa es s1 = Inr (ws, s')"
    by (auto split: sum.splits)
  from "6.IH"(1) [OF a] "6.IH"(2) [OF a refl b] show ?case
    by (rule same_scopes_trans)
qed

lemma pop_addAssertion_push [simp]: "pop (addAssertion e (push sv)) = sv"
  by (simp add: pop_def addAssertion_def push_def)

lemma assertions_addAssertion_push [simp]:
  "assertions (addAssertion e (push sv)) = e # assertions sv"
  "saved (addAssertion e (push sv)) = assertions sv # saved sv"
  "declared (addAssertion e (push sv)) = declared sv"
  by (simp_all add: addAssertion_def push_def)

lemma visitStatement_If:
  "visitStatement check dialect ssa (If cond body) s =
     (case encodeExpression dialect ssa cond s of
        Inl err \<Rightarrow> Inl err
      | Inr (condition, s0) \<Rightarrow>
          (case visitBlock check dialect ssa body
                  (s0\<lparr>m_solver := addAssertion (Neg (Eq condition (Num 0))) (push (m_solver s0))\<rparr>) of
             Inl err \<Rightarrow> Inl err
           | Inr (body', s1) \<Rightarrow>
               Inr (If (if check (Neg (Eq condition (Num 0)) # assertions (m_solver s0)) = UNSATISFIABLE
                        then Literal Number ''0''
                        else if check (Eq condition (Num 0) # assertions (m_solver s0)) = UNSATISFIABLE
                        then Literal Number ''1''
                        else cond) body',
                    s1\<lparr>m_solver := pop (m_solver s1)\<rparr>)))"
  by (simp add: Let_def split: sum.splits prod.splits)

lemma encodeInstruction_total:
  "(case i of OtherInstruction opcode \<Rightarrow> True | _ \<Rightarrow> 2 \<le> length vs) \<Longrightarrow>
   \<exists>v s'. encodeInstruction i vs s = Inr (v, s')"
  by (cases i) (auto simp: encodeInstruction_def at_def newVariable_eq)

lemma encode_total:
  shows "encodable d e \<Longrightarrow> \<exists>v s'. encodeExpression d ssa e s = Inr (v, s')"
    and "encodableArguments d es \<Longrightarrow> (case i of OtherInstruction opcode \<Rightarrow> True | _ \<Rightarrow> 2 \<le> length es) \<Longrightarrow>
         \<exists>v s'. encodeBuiltin d ssa i es s = Inr (v, s')"
    and "encodableArguments d es \<Longrightarrow>
         \<exists>vs s'. encodeArguments d ssa es s = Inr (vs, s') \<and> length vs = length es"
proof (induction d ssa e s and d ssa i es s and d ssa es s
    rule: encodeExpression_encodeBuiltin_encodeArguments.induct)
  case (1 dialect ssa fname arguments s)
  then show ?case
    by (auto split: Dialect.splits option.splits simp: newVariable_eq)
next
  case (2 dialect ssa x s)
  then show ?case
    by (auto split: if_splits option.splits simp: newVariable_eq)
next
  case (3 dialect ssa kind lit s)
  then show ?case by auto
next
  case (4 dialect ssa instruction arguments s)
  from "4.IH" [OF "4.prems"(1)] obtain vs s1 where
    a: "encodeArguments dialect ssa arguments s = Inr (vs, s1)" and l: "length vs = length arguments"
    by blast
  from "4.prems"(2) l have "(case instruction of OtherInstruction opcode \<Rightarrow> True | _ \<Rightarrow> 2 \<le> length vs)"
    by (cases instruction) simp_all
  from encodeInstruction_total [OF this, of s1] a show ?case by auto
next
  case (5 dialect ssa s)
  then show ?case by auto
next
  case (6 dialect ssa e es s)
  from "6.prems" have e: "encodable dialect e" and es: "encodableArguments dialect es" by simp_all
  from "6.IH"(1) [OF e] obtain w s1 where a: "encodeExpression dialect ssa e s = Inr (w, s1)" by blast
  from "6.IH"(2) [OF a refl es] obtain ws s2 where
    b: "encodeArguments dialect ssa es s1 = Inr (ws, s2)" and l: "length ws = length es" by blast
  from a b l show ?case by simp
qed

lemma visitVariableDeclaration_saved:
  "visitVariableDeclaration d ssa variables val s = Inr s' \<Longrightarrow>
   saved (m_solver s') = saved (m_solver s)"
  by (auto simp: visitVariableDeclaration_def Let_def solver_newVariable_def addAssertion_def
      same_scopes_def split: option.splits if_splits sum.splits dest!: encode_scopes(1))

lemma visitVariableDeclaration_total:
  "(case val of None \<Rightarrow> True | Some e \<Rightarrow> encodable d e) \<Longrightarrow>
   \<exists>s'. visitVariableDeclaration d ssa variables val s = Inr s'"
proof (cases val)
  case None
  then show ?thesis by (simp add: visitVariableDeclaration_def)
next
  case (Some e)
  assume "case val of None \<Rightarrow> True | Some e \<Rightarrow> encodable d e"
  with Some have "encodable d e" by simp
  from encode_total(1) [OF this] have "\<And>s1. \<exists>v s'. encodeExpression d ssa e s1 = Inr (v, s')" .
  then show ?thesis using Some
    by (simp add: visitVariableDeclaration_def Let_def solver_newVariable_def split: sum.splits prod.splits)
      (metis old.prod.exhaust sum.exhaust_sel Inl_Inr_False)
qed

lemma visit_saved:
  shows "visitStatement check d ssa st s = Inr (st', s') \<Longrightarrow> saved (m_solver s') = saved (m_solver s)"
    and "visitBlock check d ssa sts s = Inr (sts', s') \<Longrightarrow> saved (m_solver s') = saved (m_solver s)"
    and "visitCases check d ssa cs s = Inr (cs', s') \<Longrightarrow> saved (m_solver s') = saved (m_solver s)"
proof (induction check d ssa st s and check d ssa sts s and check d ssa cs s
    arbitrary: st' s' and sts' s' and cs' s'
    rule: visitStatement_visitBlock_visitCases.induct)
  case (1 check dialect ssa cond body s)
  from "1.prems" obtain condition s0 body' s1 where
    enc: "encodeExpression dialect ssa cond s = Inr (condition, s0)" and
    vb: "visitBlock check dialect ssa body
           (s0\<lparr>m_solver := addAssertion (Neg (Eq condition (Num 0))) (push (m_solver s0))\<rparr>) = Inr (body', s1)" and
    s': "s' = s1\<lparr>m_solver := pop (m_solver s1)\<rparr>"
    unfolding visitStatement_If by (auto split: sum.splits)
  note IH = "1.IH" [OF enc refl refl refl refl refl refl refl refl refl refl, simplified]
  from IH [OF vb] have "saved (m_solver s1) = assertions (m_solver s0) # saved (m_solver s0)" .
  with s' have "saved (m_solver s') = saved (m_solver s0)" by (simp add: pop_def)
  with encode_scopes(1) [OF enc] show ?case by (simp add: same_scopes_def)
next
  case (2 check dialect ssa variables val s)
  then show ?case by (auto split: sum.splits dest: visitVariableDeclaration_saved)
next
  case (5 check dialect ssa f parameters returnVariables body s)
  then show ?case by (auto split: sum.splits)
next
  case (6 check dialect ssa e cases s)
  then show ?case by (auto split: sum.splits)
next
  case (7 check dialect ssa pre cond post body s)
  from "7.prems" obtain pre' s1 post' s2 body' where
    a: "visitBlock check dialect ssa pre s = Inr (pre', s1)" and
    b: "visitBlock check dialect ssa post s1 = Inr (post', s2)" and
    c: "visitBlock check dialect ssa body s2 = Inr (body', s')"
    by (auto split: sum.splits)
  from "7.IH"(1) [OF a] "7.IH"(2) [OF a refl b] "7.IH"(3) [OF a refl b refl c]
  show ?case by simp
next
  case (11 check dialect ssa statements s)
  then show ?case by (auto split: sum.splits)
next
  case (13 check dialect ssa st sts s)
  from "13.prems" obtain st1 s1 sts1 where
    a: "visitStatement check dialect ssa st s = Inr (st1, s1)" and
    b: "visitBlock check dialect ssa sts s1 = Inr (sts1, s')"
    by (auto split: sum.splits)
  from "13.IH"(1) [OF a] "13.IH"(2) [OF a refl b] show ?case by simp
next
  case (15 check dialect ssa val body cases s)
  from "15.prems" obtain body1 s1 cases1 where
    a: "visitBlock check dialect ssa body s = Inr (body1, s1)" and
    b: "visitCases check dialect ssa cases s1 = Inr (cases1, s')"
    by (auto split: sum.splits)
  from "15.IH"(1) [OF a] "15.IH"(2) [OF a refl b] show ?case by simp
qed auto

lemma visit_total:
  shows "wellFormed d st \<Longrightarrow> \<exists>st' s'. visitStatement check d ssa st s = Inr (st', s')"
    and "wellFormedBlock d sts \<Longrightarrow> \<exists>sts' s'. visitBlock check d ssa sts s = Inr (sts', s')"
    and "wellFormedCases d cs \<Longrightarrow> \<exists>cs' s'. visitCases check d ssa cs s = Inr (cs', s')"
proof (induction check d ssa st s and check d ssa sts s and check d ssa cs s
    rule: visitStatement_visitBlock_visitCases.induct)
  case (1 check dialect ssa cond body s)
  from "1.prems" have c: "encodable dialect cond" and b: "wellFormedBlock dialect body" by simp_all
  from encode_total(1) [OF c] obtain condition s0 where
    enc: "encodeExpression dialect ssa cond s = Inr (condition, s0)" by blast
  note IH = "1.IH" [OF enc refl refl refl refl refl refl refl refl refl refl, simplified]
  from IH [OF b] obtain body' s1 where
    "visitBlock check dialect ssa body
       (s0\<lparr>m_solver := addAssertion (Neg (Eq condition (Num 0))) (push (m_solver s0))\<rparr>) = Inr (body', s1)"
    by blast
  with enc show ?case unfolding visitStatement_If by simp
next
  case (2 check dialect ssa variables val s)
  from "2.prems" have "case val of None \<Rightarrow> True | Some e \<Rightarrow> encodable dialect e" by simp
  from visitVariableDeclaration_total [OF this] obtain s1 where
    "visitVariableDeclaration dialect ssa variables val s = Inr s1" by blast
  then show ?case by simp
next
  case (5 check dialect ssa f parameters returnVariables body s)
  from "5.prems" have "wellFormedBlock dialect body" by simp
  from "5.IH" [OF this] show ?case by auto
next
  case (6 check dialect ssa e cases s)
  from "6.prems" have "wellFormedCases dialect cases" by simp
  from "6.IH" [OF this] show ?case by auto
next
  case (7 check dialect ssa pre cond post body s)
  from "7.prems" have w: "wellFormedBlock dialect pre" "wellFormedBlock dialect post"
    "wellFormedBlock dialect body" by simp_all
  from "7.IH"(1) [OF w(1)] obtain pre' s1 where
    a: "visitBlock check dialect ssa pre s = Inr (pre', s1)" by blast
  from "7.IH"(2) [OF a refl w(2)] obtain post' s2 where
    b: "visitBlock check dialect ssa post s1 = Inr (post', s2)" by blast
  from "7.IH"(3) [OF a refl b refl w(3)] obtain body' s3 where
    c: "visitBlock check dialect ssa body s2 = Inr (body', s3)" by blast
  from a b c show ?case by simp
next
  case (11 check dialect ssa statements s)
  from "11.prems" have "wellFormedBlock dialect statements" by simp
  from "11.IH" [OF this] show ?case by auto
next
  case (13 check dialect ssa st sts s)
  from "13.prems" have w: "wellFormed dialect st" "wellFormedBlock dialect sts" by simp_all
  from "13.IH"(1) [OF w(1)] obtain st1 s1 where
    a: "visitStatement check dialect ssa st s = Inr (st1, s1)" by blast
  from "13.IH"(2) [OF a refl w(2)] obtain sts1 s2 where
    b: "visitBlock check dialect ssa sts s1 = Inr (sts1, s2)" by blast
  from a b show ?case by simp
next
  case (15 check dialect ssa val body cases s)
  from "15.prems" have w: "wellFormedBlock dialect body" "wellFormedCases dialect cases" by simp_all
  from "15.IH"(1) [OF w(1)] obtain body1 s1 where
    a: "visitBlock check dialect ssa body s = Inr (body1, s1)" by blast
  from "15.IH"(2) [OF a refl w(2)] obtain cases1 s2 where
    b: "visitCases check dialect ssa cases s1 = Inr (cases1, s2)" by blast
  from a b show ?case by simp
qed auto

text \<open>
  Claim C7, amended. After the visit of an \<open>if\<close>, its condition is the literal \<open>0\<close>
  when the prover answers \<open>UNSATISFIABLE\<close> to the condition being different from zero;
  it is the literal \<open>1\<close> when the prover answers \<open>UNSATISFIABLE\<close> to the condition
  being zero and does not do so to its being different from zero; otherwise it is the
  condition as it was. The condition is encoded once, before both queries, and both are
  put on top of the assertions in force before the visit. An answer \<open>UNKNOWN\<close> counts
  as \<open>SATISFIABLE\<close>: with two such answers the condition stays.
\<close>

theorem visitIf_condition:
  assumes "visitStatement check dialect ssa (If cond body) s = Inr (st', s')"
  shows "\<exists>condition s0 body'.
     encodeExpression dialect ssa cond s = Inr (condition, s0) \<and>
     st' = If (if check (Neg (Eq condition (Num 0)) # assertions (m_solver s)) = UNSATISFIABLE
               then Literal Number ''0''
               else if check (Eq condition (Num 0) # assertions (m_solver s)) = UNSATISFIABLE
               then Literal Number ''1''
               else cond) body' \<and>
     ((check (Eq condition (Num 0) # assertions (m_solver s)) = SATISFIABLE \<or>
       check (Eq condition (Num 0) # assertions (m_solver s)) = UNKNOWN) \<and>
      (check (Neg (Eq condition (Num 0)) # assertions (m_solver s)) = SATISFIABLE \<or>
       check (Neg (Eq condition (Num 0)) # assertions (m_solver s)) = UNKNOWN) \<longrightarrow>
      st' = If cond body')"
proof -
  from assms obtain condition s0 body' where
    enc: "encodeExpression dialect ssa cond s = Inr (condition, s0)" and
    st': "st' = If (if check (Neg (Eq condition (Num 0)) # assertions (m_solver s0)) = UNSATISFIABLE
               then Literal Number ''0''
               else if check (Eq condition (Num 0) # assertions (m_solver s0)) = UNSATISFIABLE
               then Literal Number ''1''
               else cond) body'"
    unfolding visitStatement_If by (auto split: sum.splits)
  from encode_scopes(1) [OF enc] have a: "assertions (m_solver s0) = assertions (m_solver s)"
    by (simp add: same_scopes_def)
  have "(check (Eq condition (Num 0) # assertions (m_solver s)) = SATISFIABLE \<or>
       check (Eq condition (Num 0) # assertions (m_solver s)) = UNKNOWN) \<and>
      (check (Neg (Eq condition (Num 0)) # assertions (m_solver s)) = SATISFIABLE \<or>
       check (Neg (Eq condition (Num 0)) # assertions (m_solver s)) = UNKNOWN) \<longrightarrow>
      st' = If cond body'"
    using st' a by auto
  with enc st' a show ?thesis by auto
qed

text \<open>
  Claim C8. When the visit of an \<open>if\<close> returns, the assertions in force and the open
  scopes of the prover are those from before the visit, so the depth of the stack is the
  same and what a later sibling or the parent can prove is not affected. The two
  hypothetical scopes are closed before the body is visited: the body is visited with
  exactly one more scope open and exactly one more assertion in force than before the
  \<open>if\<close>, the assumption that the condition is not zero, and that scope is still the
  innermost one when the body has been visited and is then closed. The visit does
  return on every well-formed \<open>if\<close>. The one path on which it does not is the
  out-of-range failure of the encoding on a malformed call, which ends the whole pass.
\<close>

theorem visitIf_scopes:
  "(visitStatement check dialect ssa (If cond body) s = Inr (st', s') \<longrightarrow>
      assertions (m_solver s') = assertions (m_solver s) \<and>
      saved (m_solver s') = saved (m_solver s) \<and>
      (\<exists>condition s0 body' s1.
         encodeExpression dialect ssa cond s = Inr (condition, s0) \<and>
         assertions (m_solver s0) = assertions (m_solver s) \<and>
         saved (m_solver s0) = saved (m_solver s) \<and>
         visitBlock check dialect ssa body
           (s0\<lparr>m_solver := (m_solver s0)
               \<lparr>assertions := Neg (Eq condition (Num 0)) # assertions (m_solver s),
                saved := assertions (m_solver s) # saved (m_solver s)\<rparr>\<rparr>) = Inr (body', s1) \<and>
         saved (m_solver s1) = assertions (m_solver s) # saved (m_solver s) \<and>
         s' = s1\<lparr>m_solver := (m_solver s1)
               \<lparr>assertions := assertions (m_solver s), saved := saved (m_solver s)\<rparr>\<rparr>)) \<and>
   (wellFormed dialect (If cond body) \<longrightarrow>
      (\<exists>st' s'. visitStatement check dialect ssa (If cond body) s = Inr (st', s')))"
proof (intro conjI impI)
  assume run: "visitStatement check dialect ssa (If cond body) s = Inr (st', s')"
  then obtain condition s0 body' s1 where
    enc: "encodeExpression dialect ssa cond s = Inr (condition, s0)" and
    vb: "visitBlock check dialect ssa body
           (s0\<lparr>m_solver := addAssertion (Neg (Eq condition (Num 0))) (push (m_solver s0))\<rparr>) = Inr (body', s1)" and
    s': "s' = s1\<lparr>m_solver := pop (m_solver s1)\<rparr>"
    unfolding visitStatement_If by (auto split: sum.splits)
  from encode_scopes(1) [OF enc] have
    a0: "assertions (m_solver s0) = assertions (m_solver s)" and
    v0: "saved (m_solver s0) = saved (m_solver s)"
    by (simp_all add: same_scopes_def)
  from visit_saved(2) [OF vb] a0 v0 have
    v1: "saved (m_solver s1) = assertions (m_solver s) # saved (m_solver s)" by simp
  with s' show "assertions (m_solver s') = assertions (m_solver s)" by (simp add: pop_def)
  from v1 s' show "saved (m_solver s') = saved (m_solver s)" by (simp add: pop_def)
  have st: "addAssertion (Neg (Eq condition (Num 0))) (push (m_solver s0)) =
      (m_solver s0)\<lparr>assertions := Neg (Eq condition (Num 0)) # assertions (m_solver s),
                    saved := assertions (m_solver s) # saved (m_solver s)\<rparr>"
    using a0 v0 by (simp add: addAssertion_def push_def)
  from v1 s' have "s' = s1\<lparr>m_solver := (m_solver s1)
               \<lparr>assertions := assertions (m_solver s), saved := saved (m_solver s)\<rparr>\<rparr>"
    by (simp add: pop_def)
  with enc a0 v0 vb [unfolded st] v1
  show "\<exists>condition s0 body' s1.
         encodeExpression dialect ssa cond s = Inr (condition, s0) \<and>
         assertions (m_solver s0) = assertions (m_solver s) \<and>
         saved (m_solver s0) = saved (m_solver s) \<and>
         visitBlock check dialect ssa body
           (s0\<lparr>m_solver := (m_solver s0)
               \<lparr>assertions := Neg (Eq condition (Num 0)) # assertions (m_solver s),
                saved := assertions (m_solver s) # saved (m_solver s)\<rparr>\<rparr>) = Inr (body', s1) \<and>
         saved (m_solver s1) = assertions (m_solver s) # saved (m_solver s) \<and>
         s' = s1\<lparr>m_solver := (m_solver s1)
               \<lparr>assertions := assertions (m_solver s), saved := saved (m_solver s)\<rparr>\<rparr>"
    by blast
next
  assume "wellFormed dialect (If cond body)"
  then show "\<exists>st' s'. visitStatement check dialect ssa (If cond body) s = Inr (st', s')"
    by (rule visit_total(1))
qed







lemma expr_name_inj:
  "''expr_'' @ to_string (int k) = ''expr_'' @ to_string (int n) \<Longrightarrow> k = n"
  using to_string_inj [of "int k" "int n"] by simp

lemma counterFresh_newVariable:
  assumes "counterFresh s"
  shows "counterFresh (snd (newVariable s))"
  unfolding counterFresh_def
proof (intro allI impI)
  fix k
  assume "m_varCounter (snd (newVariable s)) \<le> k"
  then have k: "m_varCounter s < k" by (simp add: newVariable_eq)
  then have "m_varCounter s \<le> k" by simp
  with assms have old:
    "''expr_'' @ to_string (int k) \<notin> set (declared (m_solver s)) \<and>
     ''expr_'' @ to_string (int k) \<notin> \<Union> (smt_vars ` set (assertions (m_solver s))) \<and>
     ''expr_'' @ to_string (int k) \<notin> \<Union> (smt_vars ` set (concat (saved (m_solver s)))) \<and>
     ''expr_'' @ to_string (int k) \<notin> \<Union> (smt_vars ` ran (m_variables s))"
    unfolding counterFresh_def by blast
  from k have "''expr_'' @ to_string (int k) \<noteq> ''expr_'' @ to_string (int (m_varCounter s))"
    using expr_name_inj [of k "m_varCounter s"] by auto
  with old show
    "''expr_'' @ to_string (int k) \<notin> set (declared (m_solver (snd (newVariable s)))) \<and>
     ''expr_'' @ to_string (int k) \<notin> \<Union> (smt_vars ` set (assertions (m_solver (snd (newVariable s))))) \<and>
     ''expr_'' @ to_string (int k) \<notin> \<Union> (smt_vars ` set (concat (saved (m_solver (snd (newVariable s)))))) \<and>
     ''expr_'' @ to_string (int k) \<notin> \<Union> (smt_vars ` ran (m_variables (snd (newVariable s))))"
    by (simp add: newVariable_eq)
qed




lemma digit_value_digits:
  "digit_value CHR ''0'' = 0 \<and> digit_value CHR ''1'' = 1 \<and> digit_value CHR ''2'' = 2 \<and>
   digit_value CHR ''3'' = 3 \<and> digit_value CHR ''4'' = 4 \<and> digit_value CHR ''5'' = 5 \<and>
   digit_value CHR ''6'' = 6 \<and> digit_value CHR ''7'' = 7 \<and> digit_value CHR ''8'' = 8 \<and>
   digit_value CHR ''9'' = 9 \<and>
   digit_value CHR ''a'' = 10 \<and> digit_value CHR ''b'' = 11 \<and> digit_value CHR ''c'' = 12 \<and>
   digit_value CHR ''d'' = 13 \<and> digit_value CHR ''e'' = 14 \<and> digit_value CHR ''f'' = 15 \<and>
   digit_value CHR ''A'' = 10 \<and> digit_value CHR ''B'' = 11 \<and> digit_value CHR ''C'' = 12 \<and>
   digit_value CHR ''D'' = 13 \<and> digit_value CHR ''E'' = 14 \<and> digit_value CHR ''F'' = 15"
  by (simp add: digit_value_def)


text \<open>
  Outside the well-formed inputs: the switch of \<open>encodeBuiltin\<close> reads the first two
  arguments of \<open>lt\<close>, \<open>gt\<close> and \<open>add\<close> with \<open>std::vector::at\<close>, which throws when
  there are fewer. The Yul analyser accepts no such call, so the pass never meets one.
\<close>

lemma encodeInstruction_out_of_range:
  "instruction = LT \<or> instruction = GT \<or> instruction = ADD \<Longrightarrow> length arguments < 2 \<Longrightarrow>
   encodeInstruction instruction arguments s = Inl OutOfRange"
  by (auto simp: encodeInstruction_def at_def)

lemma counterFresh_iff:
  "counterFresh s \<longleftrightarrow>
     (\<forall>k. m_varCounter s \<le> k \<longrightarrow> ''expr_'' @ to_string (int k) \<notin> set (declared (m_solver s))) \<and>
     (\<forall>a \<in> set (assertions (m_solver s)). exprBelow (m_varCounter s) a) \<and>
     (\<forall>as \<in> set (saved (m_solver s)). \<forall>a \<in> set as. exprBelow (m_varCounter s) a) \<and>
     (\<forall>a \<in> ran (m_variables s). exprBelow (m_varCounter s) a)"
  unfolding counterFresh_def exprBelow_def by auto

lemma exprBelow_mono: "exprBelow n v \<Longrightarrow> n \<le> m \<Longrightarrow> exprBelow m v"
  by (simp add: exprBelow_def)

lemma exprBelow_simps [simp]:
  "exprBelow n (Num i)"
  "exprBelow n (Ite c a b) \<longleftrightarrow> exprBelow n c \<and> exprBelow n a \<and> exprBelow n b"
  "exprBelow n (Less a b) \<longleftrightarrow> exprBelow n a \<and> exprBelow n b"
  "exprBelow n (Greater a b) \<longleftrightarrow> exprBelow n a \<and> exprBelow n b"
  "exprBelow n (Add a b) \<longleftrightarrow> exprBelow n a \<and> exprBelow n b"
  "exprBelow n (Eq a b) \<longleftrightarrow> exprBelow n a \<and> exprBelow n b"
  "exprBelow n (Neg a) \<longleftrightarrow> exprBelow n a"
  by (auto simp: exprBelow_def)

lemma exprBelow_new: "exprBelow (Suc n) (Var (''expr_'' @ to_string (int n)))"
  using expr_name_inj by (fastforce simp: exprBelow_def)

lemma exprBelow_yul: "exprBelow n (Var (''yul_'' @ x))"
  by (simp add: exprBelow_def)

lemma newVariable_counterFresh:
  "counterFresh s \<Longrightarrow> newVariable s = (v, s') \<Longrightarrow>
   counterFresh s' \<and> exprBelow (m_varCounter s') v"
  using counterFresh_newVariable [of s] exprBelow_new [of "m_varCounter s"]
  by (auto simp: newVariable_eq)

lemma at_in_set: "at xs i = Inr x \<Longrightarrow> x \<in> set xs"
  by (auto simp: at_def split: if_splits)

lemma encodeInstruction_counterFresh:
  assumes "counterFresh s" and "\<forall>a \<in> set vs. exprBelow (m_varCounter s) a"
    and "encodeInstruction i vs s = Inr (v, s')"
  shows "counterFresh s' \<and> exprBelow (m_varCounter s') v"
proof (cases i)
  case (OtherInstruction opcode)
  with assms(3) have "newVariable s = (v, s')" by (simp add: encodeInstruction_def)
  with assms(1) show ?thesis by (rule newVariable_counterFresh)
next
  case ADD
  with assms(3) obtain a b where "at vs 0 = Inr a" "at vs 1 = Inr b" "v = Add a b" "s' = s"
    by (auto simp: encodeInstruction_def split: sum.splits)
  with assms(1,2) show ?thesis by (auto dest!: at_in_set)
next
  case LT
  with assms(3) obtain a b where "at vs 0 = Inr a" "at vs 1 = Inr b"
    "v = Ite (Less a b) (Num 1) (Num 0)" "s' = s"
    by (auto simp: encodeInstruction_def split: sum.splits)
  with assms(1,2) show ?thesis by (auto dest!: at_in_set)
next
  case GT
  with assms(3) obtain a b where "at vs 0 = Inr a" "at vs 1 = Inr b"
    "v = Ite (Greater a b) (Num 1) (Num 0)" "s' = s"
    by (auto simp: encodeInstruction_def split: sum.splits)
  with assms(1,2) show ?thesis by (auto dest!: at_in_set)
qed

lemma encode_counterFresh:
  shows "encodeExpression d ssa e s = Inr (v, s') \<Longrightarrow> counterFresh s \<Longrightarrow>
           counterFresh s' \<and> exprBelow (m_varCounter s') v"
    and "encodeBuiltin d ssa i es s = Inr (v, s') \<Longrightarrow> counterFresh s \<Longrightarrow>
           counterFresh s' \<and> exprBelow (m_varCounter s') v"
    and "encodeArguments d ssa es s = Inr (vs, s') \<Longrightarrow> counterFresh s \<Longrightarrow>
           counterFresh s' \<and> (\<forall>a \<in> set vs. exprBelow (m_varCounter s') a)"
proof (induction d ssa e s and d ssa i es s and d ssa es s
    arbitrary: v s' and v s' and vs s'
    rule: encodeExpression_encodeBuiltin_encodeArguments.induct)
  case (1 dialect ssa fname arguments s)
  show ?case
  proof (cases dialect)
    case OtherDialect
    with "1.prems" show ?thesis by (auto dest: newVariable_counterFresh)
  next
    case (EVMDialect builtin)
    show ?thesis
    proof (cases "builtin fname")
      case None
      with EVMDialect "1.prems" show ?thesis by (auto dest: newVariable_counterFresh)
    next
      case (Some b)
      show ?thesis
      proof (cases b)
        case None
        with Some EVMDialect "1.prems" show ?thesis by (auto dest: newVariable_counterFresh)
      next
        case (Some instruction)
        with \<open>builtin fname = Some b\<close> EVMDialect "1.prems"(1)
        have "encodeBuiltin dialect ssa instruction arguments s = Inr (v, s')" by simp
        from "1.IH" [OF EVMDialect \<open>builtin fname = Some b\<close> Some this "1.prems"(2)]
        show ?thesis .
      qed
    qed
  qed
next
  case (2 dialect ssa x s)
  show ?case
  proof (cases "x \<in> ssa \<and> m_variables s x \<noteq> None")
    case True
    then obtain bound where b: "m_variables s x = Some bound" by auto
    with True "2.prems"(1) have "v = bound" "s' = s" by simp_all
    moreover from b have "bound \<in> ran (m_variables s)" by (auto simp: ran_def)
    ultimately show ?thesis using "2.prems"(2) by (simp add: counterFresh_iff)
  next
    case False
    with "2.prems"(1) have "newVariable s = (v, s')" by (auto split: if_splits option.splits)
    with "2.prems"(2) show ?thesis by (rule newVariable_counterFresh)
  qed
next
  case (3 dialect ssa kind lit s)
  then show ?case by auto
next
  case (4 dialect ssa instruction arguments s)
  from "4.prems"(1) obtain encoded s1 where
    a: "encodeArguments dialect ssa arguments s = Inr (encoded, s1)" and
    b: "encodeInstruction instruction encoded s1 = Inr (v, s')"
    by (auto split: sum.splits)
  from "4.IH" [OF a "4.prems"(2)] have "counterFresh s1"
    "\<forall>a \<in> set encoded. exprBelow (m_varCounter s1) a" by simp_all
  then show ?case using b by (rule encodeInstruction_counterFresh)
next
  case (5 dialect ssa s)
  then show ?case by auto
next
  case (6 dialect ssa e es s)
  from "6.prems"(1) obtain w s1 ws where
    a: "encodeExpression dialect ssa e s = Inr (w, s1)" and
    b: "encodeArguments dialect ssa es s1 = Inr (ws, s')" and
    vs: "vs = w # ws"
    by (auto split: sum.splits)
  from "6.IH"(1) [OF a "6.prems"(2)] have f1: "counterFresh s1" and w: "exprBelow (m_varCounter s1) w"
    by simp_all
  from "6.IH"(2) [OF a refl b f1] have f2: "counterFresh s'" and
    ws: "\<forall>a \<in> set ws. exprBelow (m_varCounter s') a" by simp_all
  from encode_scopes(3) [OF b] have "m_varCounter s1 \<le> m_varCounter s'"
    by (simp add: same_scopes_def)
  with w have "exprBelow (m_varCounter s') w" by (rule exprBelow_mono)
  with f2 ws vs show ?case by simp
qed

lemma counterFresh_pop:
  assumes "counterFresh s" and "saved (m_solver s) \<noteq> []"
  shows "counterFresh (s\<lparr>m_solver := pop (m_solver s)\<rparr>)"
proof -
  from assms(2) obtain a rest where sv: "saved (m_solver s) = a # rest"
    by (cases "saved (m_solver s)") auto
  with assms(1) show ?thesis
    by (simp add: counterFresh_iff pop_def)
qed

lemma counterFresh_enter:
  assumes "counterFresh s" and "exprBelow (m_varCounter s) c"
  shows "counterFresh (s\<lparr>m_solver := addAssertion (Neg (Eq c (Num 0))) (push (m_solver s))\<rparr>)"
  using assms by (auto simp: counterFresh_iff)

lemma visitVariableDeclaration_counterFresh:
  assumes "visitVariableDeclaration d ssa variables val s = Inr s'" and "counterFresh s"
  shows "counterFresh s'"
proof (cases "\<exists>e. val = Some e \<and> length variables = 1 \<and> hd variables \<in> ssa")
  case False
  with assms show ?thesis
    by (auto simp: visitVariableDeclaration_def Let_def split: option.splits if_splits)
next
  case True
  then obtain e where val: "val = Some e" and one: "length variables = 1" and
    ssa: "hd variables \<in> ssa" by blast
  let ?x = "hd variables"
  let ?bound = "case m_variables s ?x of None \<Rightarrow> Var (''yul_'' @ ?x) | Some old \<Rightarrow> old"
  let ?s1 = "s\<lparr>m_solver := (m_solver s)\<lparr>declared := (''yul_'' @ ?x) # declared (m_solver s)\<rparr>,
               m_variables := (m_variables s)(?x \<mapsto> ?bound)\<rparr>"
  from assms(1) val one ssa have
    "\<exists>encoded s2. encodeExpression d ssa e ?s1 = Inr (encoded, s2) \<and>
       s' = s2\<lparr>m_solver := addAssertion (Eq ?bound encoded) (m_solver s2)\<rparr>"
    by (cases "encodeExpression d ssa e ?s1")
      (auto simp: visitVariableDeclaration_def Let_def solver_newVariable_def
         simp del: append.simps)
  then obtain encoded s2 where
    enc: "encodeExpression d ssa e ?s1 = Inr (encoded, s2)" and
    s': "s' = s2\<lparr>m_solver := addAssertion (Eq ?bound encoded) (m_solver s2)\<rparr>"
    by blast
  have b: "exprBelow (m_varCounter s) ?bound"
  proof (cases "m_variables s ?x")
    case None
    then show ?thesis using exprBelow_yul [of "m_varCounter s" ?x] by simp
  next
    case (Some old)
    then have "old \<in> ran (m_variables s)" by (auto simp: ran_def)
    with assms(2) Some show ?thesis by (simp add: counterFresh_iff)
  qed
  have "ran ((m_variables s)(?x \<mapsto> ?bound)) \<subseteq> insert ?bound (ran (m_variables s))"
    by (auto simp: ran_def split: if_splits)
  with assms(2) b have f1: "counterFresh ?s1"
    by (auto simp: counterFresh_iff)
  from encode_counterFresh(1) [OF enc f1] have f2: "counterFresh s2" and
    v: "exprBelow (m_varCounter s2) encoded" by simp_all
  from encode_scopes(1) [OF enc] have "m_varCounter s \<le> m_varCounter s2"
    by (simp add: same_scopes_def)
  with b have "exprBelow (m_varCounter s2) ?bound" by (rule exprBelow_mono)
  with f2 v s' show ?thesis
    by (auto simp: counterFresh_iff addAssertion_def)
qed

lemma visit_counterFresh:
  shows "visitStatement check d ssa st s = Inr (st', s') \<Longrightarrow> counterFresh s \<Longrightarrow> counterFresh s'"
    and "visitBlock check d ssa sts s = Inr (sts', s') \<Longrightarrow> counterFresh s \<Longrightarrow> counterFresh s'"
    and "visitCases check d ssa cs s = Inr (cs', s') \<Longrightarrow> counterFresh s \<Longrightarrow> counterFresh s'"
proof (induction check d ssa st s and check d ssa sts s and check d ssa cs s
    arbitrary: st' s' and sts' s' and cs' s'
    rule: visitStatement_visitBlock_visitCases.induct)
  case (1 check dialect ssa cond body s)
  from "1.prems"(1) obtain condition s0 body' s1 where
    enc: "encodeExpression dialect ssa cond s = Inr (condition, s0)" and
    vb: "visitBlock check dialect ssa body
           (s0\<lparr>m_solver := addAssertion (Neg (Eq condition (Num 0))) (push (m_solver s0))\<rparr>) = Inr (body', s1)" and
    s': "s' = s1\<lparr>m_solver := pop (m_solver s1)\<rparr>"
    unfolding visitStatement_If by (auto split: sum.splits)
  from encode_counterFresh(1) [OF enc "1.prems"(2)] have f0: "counterFresh s0" and
    c: "exprBelow (m_varCounter s0) condition" by simp_all
  note IH = "1.IH" [OF enc refl refl refl refl refl refl refl refl refl refl, simplified]
  from IH [OF vb counterFresh_enter [OF f0 c]] have f1: "counterFresh s1" .
  from visit_saved(2) [OF vb] have "saved (m_solver s1) \<noteq> []" by simp
  with f1 s' show ?case by (simp add: counterFresh_pop)
next
  case (2 check dialect ssa variables val s)
  then show ?case by (auto split: sum.splits dest: visitVariableDeclaration_counterFresh)
next
  case (5 check dialect ssa f parameters returnVariables body s)
  then show ?case by (auto split: sum.splits)
next
  case (6 check dialect ssa e cases s)
  then show ?case by (auto split: sum.splits)
next
  case (7 check dialect ssa pre cond post body s)
  from "7.prems"(1) obtain pre' s1 post' s2 body' where
    a: "visitBlock check dialect ssa pre s = Inr (pre', s1)" and
    b: "visitBlock check dialect ssa post s1 = Inr (post', s2)" and
    c: "visitBlock check dialect ssa body s2 = Inr (body', s')"
    by (auto split: sum.splits)
  from "7.IH"(3) [OF a refl b refl c "7.IH"(2) [OF a refl b "7.IH"(1) [OF a "7.prems"(2)]]]
  show ?case .
next
  case (11 check dialect ssa statements s)
  then show ?case by (auto split: sum.splits)
next
  case (13 check dialect ssa st sts s)
  from "13.prems"(1) obtain st1 s1 sts1 where
    a: "visitStatement check dialect ssa st s = Inr (st1, s1)" and
    b: "visitBlock check dialect ssa sts s1 = Inr (sts1, s')"
    by (auto split: sum.splits)
  from "13.IH"(2) [OF a refl b "13.IH"(1) [OF a "13.prems"(2)]] show ?case .
next
  case (15 check dialect ssa val body cases s)
  from "15.prems"(1) obtain body1 s1 cases1 where
    a: "visitBlock check dialect ssa body s = Inr (body1, s1)" and
    b: "visitCases check dialect ssa cases s1 = Inr (cases1, s')"
    by (auto split: sum.splits)
  from "15.IH"(2) [OF a refl b "15.IH"(1) [OF a "15.prems"(2)]] show ?case .
qed auto

lemma counterFresh_initialSimplifier: "counterFresh initialSimplifier"
  by (simp add: counterFresh_def initialSimplifier_def)

lemmas simplifier_eval =
  example_dialect_def example_nested_def example_dead_branch_def example_decided_def
  example_tracked_def initialSimplifier_def evmBuiltins_def groundCheck_def
  encodeInstruction_def at_def newVariable_def uniqueName_def solver_newVariable_def
  addAssertion_def push_def pop_def valueOfLiteral_def number_value_def digit_value_def
  to_string_def to_string_nat.simps digit_char_def Let_def

text \<open>
  Claim C7 as stated fails where both queries are answered \<open>UNSATISFIABLE\<close>. In the body
  of \<open>if 0 { ... }\<close> the assumption \<open>0 != 0\<close> is in force, so for the inner
  \<open>if x { }\<close> the prover refutes \<open>x == 0\<close> as well as \<open>x != 0\<close>; the first rewrite
  puts \<open>1\<close>, the second overwrites it, and the condition ends as \<open>0\<close> although the
  query for \<open>condition equals zero\<close> was answered \<open>UNSATISFIABLE\<close>.
\<close>

theorem visitIf_first_rewrite_overwritten_counterexample:
  "visitStatement groundCheck example_dialect {} example_nested initialSimplifier =
     Inr (If (Literal Number ''0'') [If (Literal Number ''0'') []],
          \<lparr> m_solver = \<lparr>declared = [''expr_0''], assertions = [], saved = []\<rparr>,
            m_variables = Map.empty, m_varCounter = 1 \<rparr>) \<and>
   encodeExpression example_dialect {} (Identifier ''x'') example_dead_branch =
     Inr (Var ''expr_0'',
          \<lparr> m_solver = \<lparr>declared = [''expr_0''], assertions = [Neg (Eq (Num 0) (Num 0))], saved = [[]]\<rparr>,
            m_variables = Map.empty, m_varCounter = 1 \<rparr>) \<and>
   groundCheck (Eq (Var ''expr_0'') (Num 0) # assertions (m_solver example_dead_branch)) = UNSATISFIABLE \<and>
   visitStatement groundCheck example_dialect {} (If (Identifier ''x'') []) example_dead_branch =
     Inr (If (Literal Number ''0'') [],
          \<lparr> m_solver = \<lparr>declared = [''expr_0''], assertions = [Neg (Eq (Num 0) (Num 0))], saved = [[]]\<rparr>,
            m_variables = Map.empty, m_varCounter = 1 \<rparr>)"
  by (simp add: simplifier_eval)

text \<open>
  \<open>if lt(1, 2) { if gt(1, 2) { } if f() { leave } }\<close>: the outer condition becomes
  \<open>1\<close>, the first inner one \<open>0\<close>, and the last, on which the prover answers
  \<open>UNKNOWN\<close>, stays.
\<close>

theorem visitIf_condition_witness:
  "visitStatement groundCheck example_dialect {} example_decided initialSimplifier =
     Inr (If (Literal Number ''1'')
            [If (Literal Number ''0'') [], If (FunctionCall ''f'' []) [Leave]],
          \<lparr> m_solver = \<lparr>declared = [''expr_0''], assertions = [], saved = []\<rparr>,
            m_variables = Map.empty, m_varCounter = 1 \<rparr>) \<and>
   groundCheck [Eq (Ite (Less (Num 1) (Num 2)) (Num 1) (Num 0)) (Num 0)] = UNSATISFIABLE \<and>
   groundCheck [Neg (Eq (Ite (Less (Num 1) (Num 2)) (Num 1) (Num 0)) (Num 0))] = SATISFIABLE \<and>
   groundCheck [Eq (Var ''expr_0'') (Num 0), Neg (Eq (Ite (Less (Num 1) (Num 2)) (Num 1) (Num 0)) (Num 0))] = UNKNOWN"
proof -
  have run: "visitStatement groundCheck example_dialect {} example_decided initialSimplifier =
     Inr (If (Literal Number ''1'')
            [If (Literal Number ''0'') [], If (FunctionCall ''f'' []) [Leave]],
          \<lparr> m_solver = \<lparr>declared = [''expr_0''], assertions = [], saved = []\<rparr>,
            m_variables = Map.empty, m_varCounter = 1 \<rparr>)"
    by (simp add: simplifier_eval)
  from visitIf_condition [OF run [unfolded example_decided_def]] run show ?thesis
    by (simp add: groundCheck_def)
qed

text \<open>
  \<open>if lt(x, 0x10) { let z := add(x, 1) }\<close> visited while \<open>yul_x = 5\<close> is in force:
  the assertion made for \<open>z\<close> inside the body goes with the scope of the body, and the
  assertions in force and the open scopes are afterwards what they were.
\<close>

theorem visitIf_scopes_witness:
  "visitStatement groundCheck example_dialect {''x'', ''z''}
       (If (FunctionCall ''lt'' [Identifier ''x'', Literal Number ''0x10''])
          [VariableDeclaration [''z''] (Some (FunctionCall ''add'' [Identifier ''x'', Literal Number ''1'']))])
       example_tracked =
     Inr (If (FunctionCall ''lt'' [Identifier ''x'', Literal Number ''0x10''])
            [VariableDeclaration [''z''] (Some (FunctionCall ''add'' [Identifier ''x'', Literal Number ''1'']))],
          \<lparr> m_solver = \<lparr>declared = [''yul_z'', ''yul_x''],
                         assertions = [Eq (Var ''yul_x'') (Num 5)], saved = []\<rparr>,
            m_variables = [''x'' \<mapsto> Var ''yul_x'', ''z'' \<mapsto> Var ''yul_z''],
            m_varCounter = 0 \<rparr>) \<and>
   assertions (m_solver example_tracked) = [Eq (Var ''yul_x'') (Num 5)] \<and>
   saved (m_solver example_tracked) = [] \<and>
   wellFormed example_dialect
       (If (FunctionCall ''lt'' [Identifier ''x'', Literal Number ''0x10''])
          [VariableDeclaration [''z''] (Some (FunctionCall ''add'' [Identifier ''x'', Literal Number ''1'']))])"
proof -
  have run: "visitStatement groundCheck example_dialect {''x'', ''z''}
       (If (FunctionCall ''lt'' [Identifier ''x'', Literal Number ''0x10''])
          [VariableDeclaration [''z''] (Some (FunctionCall ''add'' [Identifier ''x'', Literal Number ''1'']))])
       example_tracked =
     Inr (If (FunctionCall ''lt'' [Identifier ''x'', Literal Number ''0x10''])
            [VariableDeclaration [''z''] (Some (FunctionCall ''add'' [Identifier ''x'', Literal Number ''1'']))],
          \<lparr> m_solver = \<lparr>declared = [''yul_z'', ''yul_x''],
                         assertions = [Eq (Var ''yul_x'') (Num 5)], saved = []\<rparr>,
            m_variables = [''x'' \<mapsto> Var ''yul_x'', ''z'' \<mapsto> Var ''yul_z''],
            m_varCounter = 0 \<rparr>)"
    by (simp add: simplifier_eval visitVariableDeclaration_def)
  from visitIf_scopes [of groundCheck example_dialect "{''x'', ''z''}"
      "FunctionCall ''lt'' [Identifier ''x'', Literal Number ''0x10'']"
      "[VariableDeclaration [''z''] (Some (FunctionCall ''add'' [Identifier ''x'', Literal Number ''1'']))]"
      example_tracked] run
  show ?thesis
    by (simp add: example_tracked_def example_dialect_def evmBuiltins_def)
qed


end
